theory Spec2Isabelle
  imports Main
begin

section \<open>Snapshots, paths and differences\<close>

text \<open>
  A snapshot is a tree of JavaScript values: scalars, plain objects and arrays
  (spec section 3). Numbers are modelled as integers; no property below does arithmetic
  on them. A path step is a string (object field) or a number (array index); a string
  step is understood to be a field name that is not itself a decimal index.

  An object is the list of its own properties in insertion order. An array is the list
  of its slots; \<open>Hole\<close> is the empty slot that \<^verbatim>\<open>delete arr[i]\<close> leaves behind (the slot
  is not a property of the array any more, the length is unchanged). \<open>Hole\<close> occurs only
  as an array slot.
\<close>

datatype key = KStr string | KIdx nat

type_synonym path = "key list"

datatype node =
    Undefined
  | Null
  | BoolV bool
  | NumV int
  | StrV string
  | Hole
  | Obj "(key \<times> node) list"
  | Arr "node list"

text \<open>
  \<^verbatim>\<open>Difference\<close> (types.ts is not among the sources; the shape is the one the tests
  of Trashly match on: \<^verbatim>\<open>{type, path, value, oldValue}\<close>). \<open>CHANGE p v old\<close> carries
  the new value first. The type of the values is a parameter: trees here, values with
  references in the section on the copy-on-write applier.
\<close>

datatype 'v difference =
    CREATE path 'v
  | CHANGE path 'v 'v
  | REMOVE path 'v

type_synonym patch = "node difference list"

fun pathOf :: "'v difference \<Rightarrow> path" where
  "pathOf (CREATE p v) = p"
| "pathOf (CHANGE p v old) = p"
| "pathOf (REMOVE p old) = p"

datatype error = TypeError

fun isObject :: "node \<Rightarrow> bool" where
  "isObject (Obj fs) = True"
| "isObject (Arr xs) = True"
| "isObject n = False"

subsection \<open>Property access\<close>

text \<open>\<^verbatim>\<open>o[k]\<close>: reading a property; a missing property and an empty slot read as
  \<^verbatim>\<open>undefined\<close>.\<close>

fun getProp :: "node \<Rightarrow> key \<Rightarrow> node" where
  "getProp (Obj fs) k = (case map_of fs k of Some v \<Rightarrow> v | None \<Rightarrow> Undefined)"
| "getProp (Arr xs) (KIdx i) =
     (if i < length xs then (if xs ! i = Hole then Undefined else xs ! i) else Undefined)"
| "getProp n k = Undefined"

text \<open>\<^verbatim>\<open>k in o\<close> for own properties.\<close>

fun hasProp :: "node \<Rightarrow> key \<Rightarrow> bool" where
  "hasProp (Obj fs) k = (k \<in> fst ` set fs)"
| "hasProp (Arr xs) (KIdx i) = (i < length xs \<and> xs ! i \<noteq> Hole)"
| "hasProp n k = False"

text \<open>Assignment to a property of an object keeps the position of an existing key and
  appends a new one.\<close>

fun assignField :: "(key \<times> 'v) list \<Rightarrow> key \<Rightarrow> 'v \<Rightarrow> (key \<times> 'v) list" where
  "assignField [] k v = [(k, v)]"
| "assignField ((k', w) # fs) k v =
     (if k' = k then (k, v) # fs else (k', w) # assignField fs k v)"

text \<open>Assignment to an array index: inside the array the slot is replaced; at or past
  the end the array grows, the slots in between being empty.\<close>

definition assignIndex :: "node list \<Rightarrow> nat \<Rightarrow> node \<Rightarrow> node list" where
  "assignIndex xs i v =
     (if i < length xs then xs[i := v]
      else xs @ replicate (i - length xs) Hole @ [v])"

text \<open>
  \<^verbatim>\<open>o[k] = v\<close>. Arrays carry index slots only (spec section 3): a named property
  written onto an array has no representation, and that write leaves the array as it is.
  Nothing below relies on this branch. \<^verbatim>\<open>lodash.set\<close> never writes to a scalar (it
  returns a non-object unchanged and puts a container wherever the path meets one); the
  last equation leaves a scalar as it is.
\<close>

fun assignProp :: "node \<Rightarrow> key \<Rightarrow> node \<Rightarrow> node" where
  "assignProp (Obj fs) k v = Obj (assignField fs k v)"
| "assignProp (Arr xs) (KIdx i) v = Arr (assignIndex xs i v)"
| "assignProp n k v = n"

text \<open>\<^verbatim>\<open>delete o[k]\<close>: an object loses the property; an array slot becomes empty and the
  length stays.\<close>

fun deleteProp :: "node \<Rightarrow> key \<Rightarrow> node" where
  "deleteProp (Obj fs) k = Obj (filter (\<lambda>kv. fst kv \<noteq> k) fs)"
| "deleteProp (Arr xs) (KIdx i) = (if i < length xs then Arr (xs[i := Hole]) else Arr xs)"
| "deleteProp n k = n"

subsection \<open>The lodash helpers the store imports\<close>

text \<open>
  \<^verbatim>\<open>lodash.set(object, path, value)\<close>: walks the path, creating an intermediate
  container wherever the value on the way is not an object (an array when the next step
  is an index, a plain object otherwise), and assigns at the last step. It returns a
  non-object unchanged. The library mutates in place; the model returns the new tree.
\<close>

fun isIndex :: "key \<Rightarrow> bool" where
  "isIndex (KIdx i) = True"
| "isIndex (KStr s) = False"

fun baseSet :: "node \<Rightarrow> path \<Rightarrow> node \<Rightarrow> node" where
  "baseSet n [] v = n"
| "baseSet n [k] v = assignProp n k v"
| "baseSet n (k # k' # ks) v =
     (let objValue = getProp n k;
          newValue = (if isObject objValue then objValue
                      else if isIndex k' then Arr [] else Obj [])
      in assignProp n k (baseSet newValue (k' # ks) v))"

definition lodash_set :: "node \<Rightarrow> path \<Rightarrow> node \<Rightarrow> node" where
  "lodash_set object p v = (if isObject object then baseSet object p v else object)"

text \<open>
  \<^verbatim>\<open>lodash.unset(object, path)\<close>: deletes the last step's property from the parent
  that the rest of the path leads to, when that parent exists.
\<close>

fun lodash_unset :: "node \<Rightarrow> path \<Rightarrow> node" where
  "lodash_unset n [] = n"
| "lodash_unset n [k] = deleteProp n k"
| "lodash_unset n (k # k' # ks) =
     (if hasProp n k then assignProp n k (lodash_unset (getProp n k) (k' # ks)) else n)"

text \<open>
  \<^verbatim>\<open>lodash.clonedeep\<close>: a deep copy. An object is copied property by property and an
  array slot by slot over its whole length, so an empty slot is read as \<open>undefined\<close> and the
  copy is dense; as a value, a tree without empty slots is copied to itself (lemma
  \<open>cloneDeep_wellFormed\<close> below).
\<close>

primrec cloneDeep :: "node \<Rightarrow> node" where
  "cloneDeep Undefined = Undefined"
| "cloneDeep Null = Null"
| "cloneDeep (BoolV b) = BoolV b"
| "cloneDeep (NumV i) = NumV i"
| "cloneDeep (StrV s) = StrV s"
| "cloneDeep Hole = Undefined"
| "cloneDeep (Obj fs) = Obj (map (map_prod id cloneDeep) fs)"
| "cloneDeep (Arr xs) = Arr (map cloneDeep xs)"

section \<open>The store: class Trashly\<close>

text \<open>
  The fields of the class. \<open>notified\<close> is the log of notifications: each call of
  \<^verbatim>\<open>notifySubscribers\<close> invokes every listener once, and a listener reads the state with
  \<^verbatim>\<open>getState()\<close>, so the log records the snapshot that was current at the call.
\<close>

record store =
  prev :: node
  current :: node
  pointer :: int
  history :: "patch list"
  isPaused :: bool
  didChangeWhilePaused :: bool
  notified :: "node list"

definition new_Trashly :: "node \<Rightarrow> store" where
  "new_Trashly initial =
     \<lparr>prev = initial, current = initial, pointer = -1, history = [],
      isPaused = False, didChangeWhilePaused = False, notified = []\<rparr>"

text \<open>\<^verbatim>\<open>this.history.splice(0, n)\<close> returns the removed entries: the first \<open>n\<close> of
  them (none for \<open>n \<le> 0\<close>, all when \<open>n\<close> exceeds the length).\<close>

definition splice0 :: "int \<Rightarrow> 'a list \<Rightarrow> 'a list" where
  "splice0 n xs = take (nat n) xs"

definition willChange :: "store \<Rightarrow> store" where
  "willChange st =
     (if isPaused st then
        (if \<not> didChangeWhilePaused st
         then st\<lparr>prev := current st, didChangeWhilePaused := True\<rparr>
         else st)
      else st\<lparr>prev := current st\<rparr>)"

definition notifySubscribers :: "store \<Rightarrow> store" where
  "notifySubscribers st = st\<lparr>notified := notified st @ [current st]\<rparr>"

text \<open>The differ (\<^verbatim>\<open>./diff\<close>) is a parameter of every operation that calls it.\<close>

type_synonym differ = "node \<Rightarrow> node \<Rightarrow> patch"

definition didChange :: "differ \<Rightarrow> store \<Rightarrow> store" where
  "didChange dff st =
     notifySubscribers
       (if \<not> isPaused st then
          st\<lparr>history := splice0 (pointer st + 1) (history st) @ [dff (prev st) (current st)],
             pointer := pointer st + 1\<rparr>
        else st)"

text \<open>The loop of \<^verbatim>\<open>applyPatch\<close> (forward) and the loop of \<^verbatim>\<open>undo\<close> (inverse), on
  the working copy \<open>next\<close>. Both run through the patch from its first entry.\<close>

fun applyItem :: "node \<Rightarrow> node difference \<Rightarrow> node" where
  "applyItem next (CREATE p v) = lodash_set next p v"
| "applyItem next (CHANGE p v old) = lodash_set next p v"
| "applyItem next (REMOVE p old) = lodash_unset next p"

fun undoItem :: "node \<Rightarrow> node difference \<Rightarrow> node" where
  "undoItem next (CREATE p v) = lodash_unset next p"
| "undoItem next (CHANGE p v old) = lodash_set next p old"
| "undoItem next (REMOVE p old) = lodash_set next p old"

definition applyPatch :: "store \<Rightarrow> patch \<Rightarrow> store" where
  "applyPatch st p =
     notifySubscribers
       (st\<lparr>prev := current st, current := foldl applyItem (cloneDeep (current st)) p\<rparr>)"

definition canUndo :: "store \<Rightarrow> bool" where
  "canUndo st =
     (pointer st \<ge> 0 \<or> (pointer st = 0 \<and> isPaused st \<and> didChangeWhilePaused st))"

definition canRedo :: "store \<Rightarrow> bool" where
  "canRedo st = (pointer st < int (length (history st)) - 1)"

definition patch :: "patch \<Rightarrow> store \<Rightarrow> store" where
  "patch p st = applyPatch (willChange st) p"

definition replaceState :: "differ \<Rightarrow> node \<Rightarrow> store \<Rightarrow> store" where
  "replaceState dff state st =
     (let st1 = willChange st
      in didChange dff (st1\<lparr>prev := current st1, current := state\<rparr>))"

text \<open>Own enumerable properties, as object spread reads them.\<close>

fun indexed :: "nat \<Rightarrow> node list \<Rightarrow> (key \<times> node) list" where
  "indexed i [] = []"
| "indexed i (x # xs) = (if x = Hole then indexed (Suc i) xs else (KIdx i, x) # indexed (Suc i) xs)"

fun entries :: "node \<Rightarrow> (key \<times> node) list" where
  "entries (Obj fs) = fs"
| "entries (Arr xs) = indexed 0 xs"
| "entries n = []"

text \<open>\<^verbatim>\<open>{ ...a, ...b }\<close>\<close>

definition spread :: "node \<Rightarrow> node \<Rightarrow> node" where
  "spread a b = Obj (foldl (\<lambda>fs kv. assignField fs (fst kv) (snd kv)) (entries a) (entries b))"

text \<open>The argument of \<^verbatim>\<open>setState\<close>: a partial state or a function computing one.\<close>

datatype partial = Partial node | PartialFn "node \<Rightarrow> node"

definition setState :: "differ \<Rightarrow> partial \<Rightarrow> store \<Rightarrow> store" where
  "setState dff state st =
     (let st1 = willChange st
      in didChange dff
           (st1\<lparr>current :=
              (case state of
                 PartialFn f \<Rightarrow> spread (current st1) (f (current st1))
               | Partial p \<Rightarrow> spread (current st1) p)\<rparr>))"

text \<open>A mutator changes the working copy in place; the model takes the function from
  the copy to the changed copy.\<close>

definition mutate :: "differ \<Rightarrow> (node \<Rightarrow> node) \<Rightarrow> store \<Rightarrow> store" where
  "mutate dff mutator st =
     (let next = mutator (cloneDeep (current st));
          st1 = willChange st
      in didChange dff (st1\<lparr>current := next\<rparr>))"

definition pause :: "store \<Rightarrow> store" where
  "pause st = notifySubscribers (st\<lparr>isPaused := True\<rparr>)"

definition resume :: "differ \<Rightarrow> store \<Rightarrow> store" where
  "resume dff st =
     (let st1 =
        (if didChangeWhilePaused st then
           st\<lparr>prev := current st,
              history := splice0 (pointer st + 1) (history st) @ [dff (prev st) (current st)],
              pointer := pointer st + 1,
              didChangeWhilePaused := False\<rparr>
         else st)
      in notifySubscribers (st1\<lparr>isPaused := False\<rparr>))"

text \<open>The four lines that \<^verbatim>\<open>undo\<close> and \<^verbatim>\<open>redo\<close> both run when the store is paused
  with a pending change.\<close>

definition commitPending :: "differ \<Rightarrow> store \<Rightarrow> store" where
  "commitPending dff st =
     (let h = splice0 (pointer st + 1) (history st) @ [dff (prev st) (current st)]
      in st\<lparr>history := h, pointer := int (length h) - 1, didChangeWhilePaused := False\<rparr>)"

text \<open>\<^verbatim>\<open>this.history[this.pointer]\<close>; reading the \<^verbatim>\<open>length\<close> of a missing entry
  throws.\<close>

definition entryAt :: "patch list \<Rightarrow> int \<Rightarrow> error + patch" where
  "entryAt h i = (if 0 \<le> i \<and> i < int (length h) then Inr (h ! nat i) else Inl TypeError)"

definition undo :: "differ \<Rightarrow> store \<Rightarrow> error + store" where
  "undo dff st =
     (let st1 =
        (if isPaused st then
           (if didChangeWhilePaused st then commitPending dff st else st)\<lparr>isPaused := False\<rparr>
         else st)
      in if \<not> canUndo st1 then Inr st1
         else
           (case entryAt (history st1) (pointer st1) of
              Inl e \<Rightarrow> Inl e
            | Inr p \<Rightarrow>
                Inr (notifySubscribers
                  (st1\<lparr>pointer := pointer st1 - 1,
                       prev := current st1,
                       current := foldl undoItem (cloneDeep (current st1)) p\<rparr>))))"

definition redo :: "differ \<Rightarrow> store \<Rightarrow> error + store" where
  "redo dff st =
     (if isPaused st \<and> didChangeWhilePaused st then Inr (commitPending dff st)
      else
        (let st1 = (if isPaused st then st\<lparr>isPaused := False\<rparr> else st)
         in if \<not> canRedo st1 then Inr st1
            else
              (let st2 = st1\<lparr>pointer := pointer st1 + 1\<rparr>
               in case entryAt (history st2) (pointer st2) of
                    Inl e \<Rightarrow> Inl e
                  | Inr p \<Rightarrow> Inr (applyPatch st2 p))))"

definition getState :: "store \<Rightarrow> node" where
  "getState st = current st"

definition getIsPaused :: "store \<Rightarrow> bool" where
  "getIsPaused st = isPaused st"

definition getCanUndo :: "store \<Rightarrow> bool" where
  "getCanUndo st = canUndo st"

definition getCanRedo :: "store \<Rightarrow> bool" where
  "getCanRedo st = canRedo st"

section \<open>The differ\<close>

text \<open>
  Modelled from the spec: the function \<^verbatim>\<open>diff\<close> of \<^verbatim>\<open>./diff\<close>, which the store
  imports and which is not among the sources. Spec section 4.1: the two snapshots are
  traversed in lock-step; a key (or index) only in \<open>before\<close> gives a REMOVE with the
  old value, a key only in \<open>after\<close> a CREATE with the new value; for a key on both
  sides, equal values give nothing, two composites are entered, and anything else gives a
  CHANGE with both values. The result is depth first, in enumeration order of the keys:
  the keys of \<open>before\<close> first, then the keys only \<open>after\<close> has. The paths of a
  nested result get the key in front.

  The spec skips a key whose two values are the same reference. A tree carries no
  references; equal trees stand for them, and entering two equal composites instead
  gives the same empty result (lemma \<open>diff_same\<close> below).
\<close>

fun prepend :: "key \<Rightarrow> 'v difference \<Rightarrow> 'v difference" where
  "prepend k (CREATE p v) = CREATE (k # p) v"
| "prepend k (CHANGE p v old) = CHANGE (k # p) v old"
| "prepend k (REMOVE p old) = REMOVE (k # p) old"

definition created :: "node \<Rightarrow> (key \<times> node) list \<Rightarrow> patch" where
  "created before es =
     map (\<lambda>kv. CREATE [fst kv] (snd kv)) (filter (\<lambda>kv. \<not> hasProp before (fst kv)) es)"

definition esize :: "(key \<times> node) list \<Rightarrow> nat" where
  "esize es = sum_list (map (\<lambda>kv. Suc (size (snd kv))) es)"

lemma esize_indexed: "esize (indexed i xs) \<le> size_list size xs"
proof (induction xs arbitrary: i)
  case Nil
  show ?case by (simp add: esize_def)
next
  case (Cons x xs)
  have "esize (indexed (Suc i) xs) \<le> size_list size xs" by (rule Cons.IH)
  then show ?case by (simp add: esize_def)
qed

lemma esize_fields: "esize fs \<le> size_list (size_prod (\<lambda>_. 0) size) fs"
  by (induction fs) (auto simp: esize_def)

lemma esize_entries_le: "esize (entries n) \<le> size n"
  using esize_indexed[of 0] esize_fields
  by (cases n) (auto simp: esize_def le_SucI)

function diff :: "node \<Rightarrow> node \<Rightarrow> patch"
  and diffEntries :: "(key \<times> node) list \<Rightarrow> node \<Rightarrow> patch"
where
  "diff before after = diffEntries (entries before) after @ created before (entries after)"
| "diffEntries [] after = []"
| "diffEntries ((k, v) # es) after =
     (if \<not> hasProp after k then [REMOVE [k] v]
      else if v = getProp after k then []
      else if isObject v \<and> isObject (getProp after k)
           then map (prepend k) (diff v (getProp after k))
      else [CHANGE [k] (getProp after k) v])
     @ diffEntries es after"
  by pat_completeness auto
termination
  apply (relation "measure (\<lambda>x. case x of Inl (b, a) \<Rightarrow> 2 * size b + 1
                                        | Inr (es, a) \<Rightarrow> 2 * esize es)")
     apply simp
  using esize_entries_le apply (simp add: le_imp_less_Suc)
   apply (simp add: esize_def)
  apply (simp add: esize_def)
  done

section \<open>Running operations\<close>

text \<open>The public operations of the class, and a run of them that stops at the first
  exception.\<close>

datatype op =
    Mutate "node \<Rightarrow> node"
  | SetState partial
  | ReplaceState node
  | PatchOp patch
  | Pause
  | Resume
  | Undo
  | Redo

fun step :: "differ \<Rightarrow> op \<Rightarrow> store \<Rightarrow> error + store" where
  "step dff (Mutate m) st = Inr (mutate dff m st)"
| "step dff (SetState p) st = Inr (setState dff p st)"
| "step dff (ReplaceState s) st = Inr (replaceState dff s st)"
| "step dff (PatchOp p) st = Inr (patch p st)"
| "step dff Pause st = Inr (pause st)"
| "step dff Resume st = Inr (resume dff st)"
| "step dff Undo st = undo dff st"
| "step dff Redo st = redo dff st"

fun run :: "differ \<Rightarrow> op list \<Rightarrow> store \<Rightarrow> error + store" where
  "run dff [] st = Inr st"
| "run dff (x # xs) st = (case step dff x st of Inl e \<Rightarrow> Inl e | Inr st' \<Rightarrow> run dff xs st')"

text \<open>The ledger invariant of spec section 4.3.\<close>

definition ledger_ok :: "store \<Rightarrow> bool" where
  "ledger_ok st = (-1 \<le> pointer st \<and> pointer st \<le> int (length (history st)) - 1)"

section \<open>canUndo\<close>

lemma canUndo_pointer: "canUndo st = (0 \<le> pointer st)"
  by (auto simp: canUndo_def)

text \<open>
  C5. The claim: \<open>getCanUndo\<close> is true exactly when the pointer is at least 0 or the
  store is paused with a pending change. In the code the second disjunct tests
  \<^verbatim>\<open>this.pointer === 0\<close>, which the first disjunct already covers, so the getter
  is \<open>pointer \<ge> 0\<close> alone. On a new store that is paused and then mutated, the store
  is paused with a pending change, the pointer is -1, and \<open>getCanUndo\<close> is false.
\<close>

theorem C5_getCanUndo_paused_pending:
  "isPaused (mutate dff m (pause (new_Trashly S)))
   \<and> didChangeWhilePaused (mutate dff m (pause (new_Trashly S)))
   \<and> pointer (mutate dff m (pause (new_Trashly S))) = -1
   \<and> getCanUndo (mutate dff m (pause (new_Trashly S))) = False"
  by (simp add: getCanUndo_def canUndo_def mutate_def didChange_def willChange_def
      pause_def notifySubscribers_def new_Trashly_def Let_def)

section \<open>redo while paused\<close>

text \<open>
  C6. The claim: \<open>redo\<close> on a store paused with a pending change commits the change,
  leaves \<open>isPaused\<close> false and then redoes. In the code the branch that commits the
  pending change ends in \<^verbatim>\<open>return\<close>: the store stays paused, nobody is notified and
  no redo step runs. On a new store that is paused and then mutated, \<open>redo\<close> commits
  the one entry and \<open>getIsPaused\<close> is still true.
\<close>

theorem C6_redo_stays_paused:
  "redo dff (mutate dff m (pause (new_Trashly S))) =
     Inr (commitPending dff (mutate dff m (pause (new_Trashly S))))
   \<and> getIsPaused (commitPending dff (mutate dff m (pause (new_Trashly S)))) = True
   \<and> history (commitPending dff (mutate dff m (pause (new_Trashly S)))) = [dff S (m (cloneDeep S))]
   \<and> pointer (commitPending dff (mutate dff m (pause (new_Trashly S)))) = 0
   \<and> notified (commitPending dff (mutate dff m (pause (new_Trashly S))))
       = notified (mutate dff m (pause (new_Trashly S)))"
  by (simp add: redo_def commitPending_def getIsPaused_def mutate_def didChange_def
      willChange_def pause_def notifySubscribers_def new_Trashly_def splice0_def
      Let_def)

section \<open>The ledger\<close>

lemmas op_defs = mutate_def setState_def replaceState_def patch_def pause_def resume_def
  didChange_def willChange_def applyPatch_def notifySubscribers_def commitPending_def
  splice0_def

lemma entryAt_ok: "0 \<le> i \<Longrightarrow> i < int (length h) \<Longrightarrow> entryAt h i = Inr (h ! nat i)"
  by (simp add: entryAt_def)








text \<open>A new store \<^verbatim>\<open>{v: 0}\<close>, paused, then mutated by \<^verbatim>\<open>s => { s.v = 1 }\<close>.\<close>

definition store0 :: store where
  "store0 = mutate diff (\<lambda>s. assignProp s (KStr ''v'') (NumV 1))
              (pause (new_Trashly (Obj [(KStr ''v'', NumV 0)])))"

lemma store0_eq:
  "store0 = \<lparr>prev = Obj [(KStr ''v'', NumV 0)], current = Obj [(KStr ''v'', NumV 1)],
      pointer = -1, history = [], isPaused = True, didChangeWhilePaused = True,
      notified = [Obj [(KStr ''v'', NumV 0)], Obj [(KStr ''v'', NumV 1)]]\<rparr>"
  by (simp add: store0_def new_Trashly_def op_defs Let_def)



section \<open>Truncation of the redo future\<close>

lemma mutate_unpaused:
  "\<not> isPaused st \<Longrightarrow>
   mutate dff m st =
     st\<lparr>prev := current st, current := m (cloneDeep (current st)),
        history := take (nat (pointer st + 1)) (history st) @ [dff (current st) (m (cloneDeep (current st)))],
        pointer := pointer st + 1,
        notified := notified st @ [m (cloneDeep (current st))]\<rparr>"
  by (simp add: op_defs Let_def)

lemma undo_unpaused:
  "\<not> isPaused st \<Longrightarrow> 0 \<le> pointer st \<Longrightarrow> pointer st < int (length (history st)) \<Longrightarrow>
   undo dff st =
     Inr (st\<lparr>pointer := pointer st - 1, prev := current st,
            current := foldl undoItem (cloneDeep (current st)) (history st ! nat (pointer st)),
            notified := notified st @ [foldl undoItem (cloneDeep (current st)) (history st ! nat (pointer st))]\<rparr>)"
  by (simp add: undo_def canUndo_pointer entryAt_def op_defs Let_def)

lemma redo_at_end:
  "\<not> isPaused st \<Longrightarrow> pointer st = int (length (history st)) - 1 \<Longrightarrow> redo dff st = Inr st"
  by (simp add: redo_def canRedo_def)

text \<open>
  C4. On a store that is not paused, a committed mutation keeps the history up to the
  pointer, drops every entry after it and appends its own patch; afterwards nothing can
  be redone and \<open>redo\<close> returns the store as it is. After three committed mutations,
  two undos and a fourth mutation, the history is the old prefix, the first patch and the
  fourth patch: the second and third are gone, \<open>canRedo\<close> is false and \<open>redo\<close>
  changes nothing.
\<close>

theorem C4_truncation:
  assumes ok: "ledger_ok st" and np: "\<not> isPaused st"
  shows "history (mutate dff m st) =
           take (nat (pointer st + 1)) (history st) @ [dff (current st) (m (cloneDeep (current st)))]
       \<and> canRedo (mutate dff m st) = False
       \<and> redo dff (mutate dff m st) = Inr (mutate dff m st)
       \<and> (\<exists>u1 u2.
            undo dff (mutate dff m3 (mutate dff m2 (mutate dff m1 st))) = Inr u1
          \<and> undo dff u1 = Inr u2
          \<and> run dff [Mutate m1, Mutate m2, Mutate m3, Undo, Undo, Mutate m] st
              = Inr (mutate dff m u2)
          \<and> history (mutate dff m u2) =
              take (nat (pointer st + 1)) (history st)
              @ [dff (current st) (m1 (cloneDeep (current st))), dff (current u2) (m (cloneDeep (current u2)))]
          \<and> canRedo (mutate dff m u2) = False
          \<and> redo dff (mutate dff m u2) = Inr (mutate dff m u2))"
proof -
  define n where "n = nat (pointer st + 1)"
  define H where "H = take n (history st)"
  have p: "pointer st = int n - 1" and len: "length H = n"
    using ok by (auto simp: ledger_ok_def n_def H_def)
  have A: "history (mutate dff m st) = H @ [dff (current st) (m (cloneDeep (current st)))]"
    "pointer (mutate dff m st) = int n" "isPaused (mutate dff m st) = False"
    using np p by (simp_all add: mutate_unpaused H_def n_def)
  have A3: "canRedo (mutate dff m st) = False"
    using A len by (simp add: canRedo_def)
  have A4: "redo dff (mutate dff m st) = Inr (mutate dff m st)"
    using A len by (simp add: redo_at_end)
  define s1 where "s1 = mutate dff m1 st"
  define s2 where "s2 = mutate dff m2 s1"
  define s3 where "s3 = mutate dff m3 s2"
  define d1 where "d1 = dff (current st) (m1 (cloneDeep (current st)))"
  define d2 where "d2 = dff (current s1) (m2 (cloneDeep (current s1)))"
  define d3 where "d3 = dff (current s2) (m3 (cloneDeep (current s2)))"
  have S1: "history s1 = H @ [d1]" "pointer s1 = int n" "isPaused s1 = False"
    using np p by (simp_all add: s1_def d1_def mutate_unpaused H_def n_def)
  have S2: "history s2 = H @ [d1, d2]" "pointer s2 = int n + 1" "isPaused s2 = False"
    using S1 len by (simp_all add: s2_def d2_def mutate_unpaused nat_add_distrib)
  have S3: "history s3 = H @ [d1, d2, d3]" "pointer s3 = int n + 2" "isPaused s3 = False"
    using S2 len by (simp_all add: s3_def d3_def mutate_unpaused nat_add_distrib)
  obtain u1 where U1: "undo dff s3 = Inr u1" "history u1 = H @ [d1, d2, d3]"
    "pointer u1 = int n + 1" "isPaused u1 = False"
    using S3 len by (simp add: undo_unpaused)
  obtain u2 where U2: "undo dff u1 = Inr u2" "history u2 = H @ [d1, d2, d3]"
    "pointer u2 = int n" "isPaused u2 = False"
    using U1 len by (simp add: undo_unpaused)
  have B: "history (mutate dff m u2) = H @ [d1, dff (current u2) (m (cloneDeep (current u2)))]"
    "pointer (mutate dff m u2) = int n + 1" "isPaused (mutate dff m u2) = False"
    using U2 len by (simp_all add: mutate_unpaused nat_add_distrib)
  have B3: "canRedo (mutate dff m u2) = False"
    using B len by (simp add: canRedo_def)
  have B4: "redo dff (mutate dff m u2) = Inr (mutate dff m u2)"
    using B len by (simp add: redo_at_end)
  have R: "run dff [Mutate m1, Mutate m2, Mutate m3, Undo, Undo, Mutate m] st
              = Inr (mutate dff m u2)"
    using U1(1) U2(1) by (simp add: s1_def s2_def s3_def)
  show ?thesis
    using A(1) A3 A4 U1(1) U2(1) R B(1) B3 B4
    unfolding H_def n_def d1_def s1_def s2_def s3_def by blast
qed


text \<open>The mutator \<^verbatim>\<open>s => { s.v = i }\<close>.\<close>

definition setV :: "int \<Rightarrow> node \<Rightarrow> node" where
  "setV i s = assignProp s (KStr ''v'') (NumV i)"

theorem C4_truncation_witness:
  "ledger_ok (new_Trashly (Obj [(KStr ''v'', NumV 0)]))
   \<and> isPaused (new_Trashly (Obj [(KStr ''v'', NumV 0)])) = False
   \<and> (\<exists>st'. run diff [Mutate (setV 1), Mutate (setV 2), Mutate (setV 3), Undo, Undo,
                        Mutate (setV 9)] (new_Trashly (Obj [(KStr ''v'', NumV 0)])) = Inr st'
          \<and> length (history st') = 2 \<and> canRedo st' = False \<and> redo diff st' = Inr st')"
proof -
  let ?N = "new_Trashly (Obj [(KStr ''v'', NumV 0)])"
  have ok: "ledger_ok ?N" by (simp add: ledger_ok_def new_Trashly_def)
  have np: "\<not> isPaused ?N" by (simp add: new_Trashly_def)
  have h: "history ?N = []" by (simp add: new_Trashly_def)
  from C4_truncation[OF ok np, where dff = diff and m = "setV 9" and ?m1.0 = "setV 1"
      and ?m2.0 = "setV 2" and ?m3.0 = "setV 3"]
  obtain u2 where
    "run diff [Mutate (setV 1), Mutate (setV 2), Mutate (setV 3), Undo, Undo, Mutate (setV 9)] ?N
       = Inr (mutate diff (setV 9) u2)"
    "history (mutate diff (setV 9) u2) =
       take (nat (pointer ?N + 1)) (history ?N)
       @ [diff (current ?N) (setV 1 (cloneDeep (current ?N))),
          diff (current u2) (setV 9 (cloneDeep (current u2)))]"
    "canRedo (mutate diff (setV 9) u2) = False"
    "redo diff (mutate diff (setV 9) u2) = Inr (mutate diff (setV 9) u2)"
    by blast
  then show ?thesis using ok np h by simp
qed

section \<open>Notifications\<close>







section \<open>Object properties and object spread\<close>

lemma map_of_assignField: "map_of (assignField fs k v) = (map_of fs)(k \<mapsto> v)"
  by (induction fs) (auto simp: fun_upd_twist)

lemma keys_assignField: "fst ` set (assignField fs k v) = insert k (fst ` set fs)"
  by (simp add: dom_map_of_conv_image_fst[symmetric] map_of_assignField)

lemma getProp_absent: "\<not> hasProp n k \<Longrightarrow> getProp n k = Undefined"
proof (cases n)
  case (Obj fs)
  assume "\<not> hasProp n k"
  then have "map_of fs k = None" using Obj by (simp add: map_of_eq_None_iff)
  then show ?thesis using Obj by simp
next
  case (Arr xs)
  assume "\<not> hasProp n k"
  then show ?thesis using Arr by (cases k) auto
qed auto

lemma map_of_indexed_str: "map_of (indexed i xs) (KStr s) = None"
  by (induction xs arbitrary: i) auto

lemma map_of_indexed_idx:
  "map_of (indexed i xs) (KIdx j) =
     (if i \<le> j \<and> j - i < length xs \<and> xs ! (j - i) \<noteq> Hole then Some (xs ! (j - i)) else None)"
proof (induction xs arbitrary: i)
  case Nil
  show ?case by simp
next
  case (Cons x xs)
  show ?case
  proof (cases "j = i")
    case True
    then show ?thesis using Cons.IH[of "Suc i"] by simp
  next
    case False
    show ?thesis
    proof (cases "i < j")
      case True
      then have d: "j - i = Suc (j - Suc i)" by arith
      show ?thesis using True Cons.IH[of "Suc i"] by (simp add: d)
    next
      case False
      then have "j < i" using \<open>j \<noteq> i\<close> by arith
      then show ?thesis using Cons.IH[of "Suc i"] by simp
    qed
  qed
qed

lemma map_of_entries:
  "map_of (entries n) k = (if hasProp n k then Some (getProp n k) else None)"
proof (cases n)
  case (Obj fs)
  then show ?thesis by (auto simp: map_of_eq_None_iff image_iff split: option.splits)
next
  case (Arr xs)
  then show ?thesis
    by (cases k) (auto simp: map_of_indexed_str map_of_indexed_idx)
qed auto

lemma map_of_foldl_assignField:
  "distinct (map fst es) \<Longrightarrow>
   map_of (foldl (\<lambda>fs kv. assignField fs (fst kv) (snd kv)) fs es) = map_of fs ++ map_of es"
proof (induction es arbitrary: fs)
  case Nil
  show ?case by simp
next
  case (Cons e es)
  obtain a b where e: "e = (a, b)" by (cases e)
  have nd: "a \<notin> dom (map_of es)"
    using Cons.prems by (auto simp: e dom_map_of_conv_image_fst)
  have d: "distinct (map fst es)" using Cons.prems by simp
  have "map_of (foldl (\<lambda>fs kv. assignField fs (fst kv) (snd kv)) fs (e # es))
        = map_of (foldl (\<lambda>fs kv. assignField fs (fst kv) (snd kv)) (assignField fs a b) es)"
    by (simp add: e)
  also have "\<dots> = map_of (assignField fs a b) ++ map_of es"
    by (rule Cons.IH[OF d])
  also have "\<dots> = (map_of fs)(a \<mapsto> b) ++ map_of es"
    by (simp only: map_of_assignField)
  also have "\<dots> = (map_of fs ++ map_of es)(a \<mapsto> b)"
    using nd by (rule map_add_upd_left)
  also have "\<dots> = map_of fs ++ map_of (e # es)"
    by (simp add: e)
  finally show ?case .
qed

lemma getProp_spread:
  assumes "distinct (map fst (entries p))"
  shows "getProp (spread c p) k = (if hasProp p k then getProp p k else getProp c k)"
    and "hasProp (spread c p) k = (hasProp p k \<or> hasProp c k)"
proof -
  have m: "map_of (foldl (\<lambda>fs kv. assignField fs (fst kv) (snd kv)) (entries c) (entries p))
        = map_of (entries c) ++ map_of (entries p)"
    using assms by (rule map_of_foldl_assignField)
  show "getProp (spread c p) k = (if hasProp p k then getProp p k else getProp c k)"
    by (auto simp: spread_def m map_add_def map_of_entries getProp_absent split: option.splits)
  have "hasProp (spread c p) k = (k \<in> dom (map_of (entries c) ++ map_of (entries p)))"
    unfolding spread_def hasProp.simps m[symmetric] by (simp add: dom_map_of_conv_image_fst)
  then show "hasProp (spread c p) k = (hasProp p k \<or> hasProp c k)"
    by (auto simp: map_of_entries dom_def map_add_def split: option.splits if_splits)
qed

section \<open>Undo after diff\<close>

text \<open>
  The trees on which undoing a diff can be followed exactly. \<open>wellFormed\<close>: no key
  twice in an object and no empty slot in an array, at any depth (what a JavaScript
  value built from literals is). \<open>structEq\<close>: equality of structure, the order of the
  keys of an object aside: same kind, same array length, same own properties, and the
  properties equal in structure. \<open>restorable s t\<close>: wherever the differ enters two
  composites, both are arrays or both are objects, and the array of \<open>t\<close> is not the
  longer one.
\<close>

fun isArr :: "node \<Rightarrow> bool" where
  "isArr (Arr xs) = True"
| "isArr n = False"

fun alen :: "node \<Rightarrow> nat" where
  "alen (Arr xs) = length xs"
| "alen n = 0"

function (sequential) wellFormed :: "node \<Rightarrow> bool"
  and wellFormedEntries :: "(key \<times> node) list \<Rightarrow> bool"
where
  "wellFormed (Obj fs) = (distinct (map fst fs) \<and> wellFormedEntries fs)"
| "wellFormed (Arr xs) = (Hole \<notin> set xs \<and> wellFormedEntries (indexed 0 xs))"
| "wellFormed Hole = False"
| "wellFormed n = True"
| "wellFormedEntries [] = True"
| "wellFormedEntries ((k, v) # es) = (wellFormed v \<and> wellFormedEntries es)"
  by pat_completeness auto
termination
  apply (relation "measure (\<lambda>x. case x of Inl n \<Rightarrow> 2 * size n + 1 | Inr es \<Rightarrow> 2 * esize es)")
  subgoal by simp
  subgoal for fs using esize_fields[of fs] by simp
  subgoal for xs using esize_indexed[of 0 xs] by simp
  subgoal by (simp add: esize_def)
  subgoal by (simp add: esize_def)
  done

function structEq :: "node \<Rightarrow> node \<Rightarrow> bool"
  and structEqEntries :: "(key \<times> node) list \<Rightarrow> node \<Rightarrow> bool"
where
  "structEq s t =
     (if isObject s
      then isObject t \<and> isArr s = isArr t \<and> alen s = alen t
           \<and> fst ` set (entries t) \<subseteq> fst ` set (entries s)
           \<and> structEqEntries (entries s) t
      else s = t)"
| "structEqEntries [] t = True"
| "structEqEntries ((k, v) # es) t =
     (hasProp t k \<and> structEq v (getProp t k) \<and> structEqEntries es t)"
  by pat_completeness auto
termination
  apply (relation "measure (\<lambda>x. case x of Inl (s, t) \<Rightarrow> 2 * size s + 1
                                        | Inr (es, t) \<Rightarrow> 2 * esize es)")
  using esize_entries_le apply (auto simp: esize_def le_imp_less_Suc)
  done

function restorable :: "node \<Rightarrow> node \<Rightarrow> bool"
  and restorableEntries :: "(key \<times> node) list \<Rightarrow> node \<Rightarrow> bool"
where
  "restorable s t =
     (isArr s = isArr t \<and> alen t \<le> alen s \<and> restorableEntries (entries s) t)"
| "restorableEntries [] t = True"
| "restorableEntries ((k, v) # es) t =
     ((if hasProp t k \<and> isObject v \<and> isObject (getProp t k)
       then restorable v (getProp t k) else True)
      \<and> restorableEntries es t)"
  by pat_completeness auto
termination
  apply (relation "measure (\<lambda>x. case x of Inl (s, t) \<Rightarrow> 2 * size s + 1
                                        | Inr (es, t) \<Rightarrow> 2 * esize es)")
  using esize_entries_le apply (auto simp: esize_def le_imp_less_Suc)
  done


declare structEq.simps [simp del] restorable.simps [simp del]

lemma hasProp_entries: "hasProp n k = (k \<in> fst ` set (entries n))"
proof -
  have "(k \<in> dom (map_of (entries n))) = hasProp n k"
    by (simp add: map_of_entries dom_def)
  then show ?thesis by (simp add: dom_map_of_conv_image_fst)
qed

lemma indexed_keys: "(k, v) \<in> set (indexed i xs) \<Longrightarrow> \<exists>j\<ge>i. k = KIdx j"
proof (induction xs arbitrary: i)
  case Nil
  then show ?case by simp
next
  case (Cons x xs)
  then show ?case by (fastforce split: if_splits dest: Suc_leD)
qed

lemma distinct_indexed: "distinct (map fst (indexed i xs))"
proof (induction xs arbitrary: i)
  case Nil
  show ?case by simp
next
  case (Cons x xs)
  have "KIdx i \<notin> fst ` set (indexed (Suc i) xs)"
    using indexed_keys[of "KIdx i" _ "Suc i" xs] by auto
  then show ?case using Cons.IH[of "Suc i"] by simp
qed

lemma wellFormedEntries_iff:
  "wellFormedEntries es = (\<forall>kv\<in>set es. wellFormed (snd kv))"
  by (induction es) auto

lemma wellFormed_not_Hole: "wellFormed v \<Longrightarrow> v \<noteq> Hole"
  by auto

lemma snd_indexed: "Hole \<notin> set xs \<Longrightarrow> snd ` set (indexed i xs) = set xs"
  by (induction xs arbitrary: i) auto

lemma cloneDeep_wellFormed: "wellFormed n \<Longrightarrow> cloneDeep n = n"
proof (induction n)
  case (Obj fs)
  have "\<forall>kv\<in>set fs. wellFormed (snd kv)"
    using Obj.prems by (simp add: wellFormedEntries_iff)
  then have "map (map_prod id cloneDeep) fs = fs"
    using Obj.IH by (intro map_idI) auto
  then show ?case by simp
next
  case (Arr xs)
  have e: "\<forall>kv\<in>set (indexed 0 xs). wellFormed (snd kv)" and h: "Hole \<notin> set xs"
    using Arr.prems by (simp_all add: wellFormedEntries_iff)
  have "wellFormed x" if "x \<in> set xs" for x
  proof -
    from that have "x \<in> snd ` set (indexed 0 xs)" by (simp add: snd_indexed[OF h])
    then show ?thesis using e by auto
  qed
  then have "map cloneDeep xs = xs"
    using Arr.IH by (intro map_idI) auto
  then show ?case by simp
qed simp_all

lemma wellFormed_distinct: "wellFormed n \<Longrightarrow> distinct (map fst (entries n))"
  by (cases n) (auto simp: distinct_indexed)

lemma wellFormed_entries: "wellFormed n \<Longrightarrow> wellFormedEntries (entries n)"
  by (cases n) auto

lemma entries_getProp:
  assumes "distinct (map fst (entries n))" and "(k, v) \<in> set (entries n)"
  shows "hasProp n k \<and> getProp n k = v"
proof -
  have "map_of (entries n) k = Some v" using assms by simp
  then show ?thesis by (simp add: map_of_entries split: if_splits)
qed

lemma getProp_entries: "hasProp n k \<Longrightarrow> (k, getProp n k) \<in> set (entries n)"
  by (rule map_of_SomeD) (simp add: map_of_entries)

lemma wellFormed_getProp: "wellFormed n \<Longrightarrow> hasProp n k \<Longrightarrow> wellFormed (getProp n k)"
  using wellFormed_entries[of n] getProp_entries[of n k]
  by (auto simp: wellFormedEntries_iff)

lemma diffEntries_same:
  "\<forall>kv\<in>set es. hasProp t (fst kv) \<and> getProp t (fst kv) = snd kv \<Longrightarrow> diffEntries es t = []"
  by (induction es) auto

lemma diff_same: "distinct (map fst (entries s)) \<Longrightarrow> diff s s = []"
proof -
  assume d: "distinct (map fst (entries s))"
  have "\<forall>kv\<in>set (entries s). hasProp s (fst kv) \<and> getProp s (fst kv) = snd kv"
    using entries_getProp[OF d] by auto
  then have "diffEntries (entries s) s = []" by (rule diffEntries_same)
  moreover have "created s (entries s) = []"
    by (auto simp: created_def filter_empty_conv hasProp_entries)
  ultimately show ?thesis by simp
qed

lemma isArr_entries: "isArr n \<Longrightarrow> k \<in> fst ` set (entries n) \<Longrightarrow> isIndex k"
  by (cases n) (auto dest: indexed_keys)

lemma wellFormed_Arr_hasProp:
  "wellFormed n \<Longrightarrow> isArr n \<Longrightarrow> hasProp n (KIdx i) = (i < alen n)"
  by (cases n) (auto simp: in_set_conv_nth)

lemma isArr_isObject: "isArr n \<Longrightarrow> isObject n"
  by (cases n) auto

subsection \<open>Assignment and deletion, seen through the properties\<close>

lemma hasProp_assignIndex:
  "v \<noteq> Hole \<Longrightarrow>
   (j < length (assignIndex xs i v) \<and> assignIndex xs i v ! j \<noteq> Hole)
     = (j = i \<or> (j < length xs \<and> xs ! j \<noteq> Hole))"
  by (auto simp: assignIndex_def nth_append nth_list_update)

lemma nth_assignIndex:
  "j < length (assignIndex xs i v) \<Longrightarrow>
   assignIndex xs i v ! j = (if j = i then v else if j < length xs then xs ! j else Hole)"
  by (auto simp: assignIndex_def nth_append nth_list_update)

lemma length_assignIndex: "length (assignIndex xs i v) = max (length xs) (Suc i)"
  by (auto simp: assignIndex_def)

lemma hasProp_assignProp:
  assumes "isObject R" "isArr R \<longrightarrow> isIndex k" "v \<noteq> Hole"
  shows "hasProp (assignProp R k v) k' = (k' = k \<or> hasProp R k')"
proof (cases R)
  case (Obj fs)
  then show ?thesis by (auto simp: keys_assignField)
next
  case (Arr xs)
  then obtain i where k: "k = KIdx i" using assms(2) by (cases k) auto
  show ?thesis
  proof (cases k')
    case (KStr s)
    then show ?thesis using Arr k by simp
  next
    case (KIdx j)
    then show ?thesis using Arr k hasProp_assignIndex[OF assms(3), of j xs i] by simp
  qed
qed (use assms in auto)

lemma getProp_assignProp:
  assumes "isObject R" "isArr R \<longrightarrow> isIndex k" "v \<noteq> Hole"
  shows "getProp (assignProp R k v) k' = (if k' = k then v else getProp R k')"
proof (cases R)
  case (Obj fs)
  then show ?thesis by (auto simp: map_of_assignField)
next
  case (Arr xs)
  then obtain i where k: "k = KIdx i" using assms(2) by (cases k) auto
  show ?thesis
  proof (cases k')
    case (KStr s)
    then show ?thesis using Arr k by simp
  next
    case (KIdx j)
    then show ?thesis using Arr k assms(3)
      by (auto simp: nth_assignIndex length_assignIndex)
  qed
qed (use assms in auto)

lemma keys_filter:
  "(k' \<in> fst ` set (filter (\<lambda>kv. fst kv \<noteq> k) fs)) = (k' \<noteq> k \<and> k' \<in> fst ` set fs)"
  by (induction fs) auto

lemma hasProp_deleteProp: "hasProp (deleteProp R k) k' = (k' \<noteq> k \<and> hasProp R k')"
proof (cases R)
  case (Obj fs)
  then show ?thesis using keys_filter[of k' k fs] by simp
next
  case (Arr xs)
  then show ?thesis by (cases k; cases k') (auto simp: nth_list_update)
qed auto

lemma getProp_deleteProp:
  assumes "k' \<noteq> k"
  shows "getProp (deleteProp R k) k' = getProp R k'"
proof (cases R)
  case (Obj fs)
  have "map_of (filter (\<lambda>kv. fst kv \<noteq> k) fs) k' = map_of fs k'"
    using assms by (induction fs) auto
  then show ?thesis using Obj by simp
next
  case (Arr xs)
  then show ?thesis using assms by (cases k; cases k') (auto simp: nth_list_update)
qed auto

lemma kind_assignProp [simp]:
  "isObject (assignProp R k v) = isObject R" "isArr (assignProp R k v) = isArr R"
  by (cases R; cases k; simp)+

lemma kind_deleteProp [simp]:
  "isObject (deleteProp R k) = isObject R" "isArr (deleteProp R k) = isArr R"
  "alen (deleteProp R k) = alen R"
  by (cases R; cases k; simp)+

lemma alen_assignProp:
  "alen R \<le> n \<Longrightarrow> (\<forall>i. k = KIdx i \<longrightarrow> i < n) \<Longrightarrow> alen (assignProp R k v) \<le> n"
  by (cases R; cases k) (auto simp: length_assignIndex)

lemma assignField_twice: "assignField (assignField fs k c) k c' = assignField fs k c'"
  by (induction fs) auto

lemma assignIndex_twice: "assignIndex (assignIndex xs i c) i c' = assignIndex xs i c'"
  by (auto simp: assignIndex_def list_update_append)

lemma assignProp_twice: "assignProp (assignProp R k c) k c' = assignProp R k c'"
  by (cases R; cases k) (simp_all add: assignField_twice assignIndex_twice)

lemma assignField_same: "map_of fs k = Some v \<Longrightarrow> assignField fs k v = fs"
  by (induction fs) (auto split: if_splits)

lemma assignProp_same: "hasProp R k \<Longrightarrow> assignProp R k (getProp R k) = R"
proof (cases R)
  case (Obj fs)
  assume "hasProp R k"
  then obtain v where "map_of fs k = Some v"
    using Obj by (cases "map_of fs k") (auto simp: map_of_eq_None_iff)
  then show ?thesis using Obj by (simp add: assignField_same)
next
  case (Arr xs)
  assume "hasProp R k"
  then show ?thesis using Arr by (cases k) (auto simp: assignIndex_def)
qed auto


subsection \<open>Undoing a nested patch\<close>

lemma pathOf_prepend [simp]: "pathOf (prepend k d) = k # pathOf d"
  by (cases d) auto

lemma diff_paths:
  "\<forall>d\<in>set (diff s t). pathOf d \<noteq> []"
  "\<forall>d\<in>set (diffEntries es t). pathOf d \<noteq> []"
  by (induction s t and es t rule: diff_diffEntries.induct) (auto simp: created_def)

lemma isObject_baseSet: "isObject c \<Longrightarrow> isObject (baseSet c p v)"
  by (cases "(c, p, v)" rule: baseSet.cases) (auto simp: Let_def)

lemma isObject_lodash_unset: "isObject c \<Longrightarrow> isObject (lodash_unset c p)"
  by (cases "(c, p)" rule: lodash_unset.cases) auto

lemma isObject_undoItem: "isObject c \<Longrightarrow> isObject (undoItem c d)"
  by (cases d) (auto simp: lodash_set_def isObject_baseSet isObject_lodash_unset)

lemma isObject_foldl_undoItem: "isObject c \<Longrightarrow> isObject (foldl undoItem c ds)"
  by (induction ds arbitrary: c) (auto simp: isObject_undoItem)

lemma undoItem_prepend:
  assumes "hasProp R k" "isObject R" "isObject (getProp R k)" "pathOf d \<noteq> []"
  shows "undoItem R (prepend k d) = assignProp R k (undoItem (getProp R k) d)"
proof -
  obtain k' ks where p: "pathOf d = k' # ks" using assms(4) by (cases "pathOf d") auto
  show ?thesis using assms(1-3) p
    by (cases d) (auto simp: lodash_set_def Let_def)
qed

lemma isObject_not_Hole: "isObject c \<Longrightarrow> c \<noteq> Hole"
  by auto

lemma foldl_undoItem_prepend:
  assumes "hasProp R k" "isObject R" "isArr R \<longrightarrow> isIndex k" "isObject (getProp R k)"
    "\<forall>d\<in>set ds. pathOf d \<noteq> []"
  shows "foldl undoItem R (map (prepend k) ds)
           = assignProp R k (foldl undoItem (getProp R k) ds)"
  using assms
proof (induction ds arbitrary: R)
  case Nil
  then show ?case by (simp add: assignProp_same)
next
  case (Cons d ds)
  let ?c = "undoItem (getProp R k) d"
  let ?R1 = "assignProp R k ?c"
  have c: "isObject ?c" using Cons.prems(4) by (rule isObject_undoItem)
  have step: "undoItem R (prepend k d) = ?R1"
    using Cons.prems by (simp add: undoItem_prepend)
  have h: "hasProp ?R1 k" "getProp ?R1 k = ?c"
    using Cons.prems(2,3) c
    by (simp_all add: hasProp_assignProp getProp_assignProp isObject_not_Hole)
  have "foldl undoItem ?R1 (map (prepend k) ds)
          = assignProp ?R1 k (foldl undoItem (getProp ?R1 k) ds)"
    using Cons.prems h c by (intro Cons.IH) simp_all
  then show ?case by (simp add: step h assignProp_twice)
qed

subsection \<open>Structural equality\<close>

lemma structEqEntries_iff:
  "structEqEntries es t = (\<forall>kv\<in>set es. hasProp t (fst kv) \<and> structEq (snd kv) (getProp t (fst kv)))"
  by (induction es) auto

lemma structEq_same_aux:
  "t = s \<longrightarrow> wellFormed s \<longrightarrow> structEq s t"
  "(\<forall>kv\<in>set es. hasProp t (fst kv) \<and> getProp t (fst kv) = snd kv \<and> wellFormed (snd kv))
     \<longrightarrow> structEqEntries es t"
proof (induction s t and es t rule: structEq_structEqEntries.induct)
  case (1 s t)
  show ?case
  proof (intro impI)
    assume ts: "t = s" and wf: "wellFormed s"
    show "structEq s t"
    proof (cases "isObject s")
      case True
      have "\<forall>kv\<in>set (entries s). hasProp t (fst kv) \<and> getProp t (fst kv) = snd kv
              \<and> wellFormed (snd kv)"
        using entries_getProp[OF wellFormed_distinct[OF wf]] wellFormed_entries[OF wf] ts
        by (auto simp: wellFormedEntries_iff)
      then have "structEqEntries (entries s) t" using 1 True by simp
      then show ?thesis using True ts by (simp add: structEq.simps)
    next
      case False
      then show ?thesis using ts by (simp add: structEq.simps)
    qed
  qed
next
  case (2 t)
  show ?case by simp
next
  case (3 k v es t)
  then show ?case by simp
qed

lemma structEq_same: "wellFormed s \<Longrightarrow> structEq s s"
  using structEq_same_aux(1)[of s s] by simp

subsection \<open>Undoing the CREATE entries\<close>

lemma foldl_undoItem_created:
  assumes "isObject R"
  shows "isObject (foldl undoItem R (created s es))
       \<and> isArr (foldl undoItem R (created s es)) = isArr R
       \<and> alen (foldl undoItem R (created s es)) = alen R
       \<and> (\<forall>k. hasProp (foldl undoItem R (created s es)) k
               = (hasProp R k \<and> \<not> (k \<in> fst ` set es \<and> \<not> hasProp s k)))
       \<and> (\<forall>k. \<not> (k \<in> fst ` set es \<and> \<not> hasProp s k) \<longrightarrow>
               getProp (foldl undoItem R (created s es)) k = getProp R k)"
  using assms
proof (induction es arbitrary: R)
  case Nil
  then show ?case by (simp add: created_def)
next
  case (Cons e es)
  show ?case
  proof (cases "hasProp s (fst e)")
    case True
    then have "created s (e # es) = created s es" by (simp add: created_def)
    then show ?thesis using Cons.IH[OF Cons.prems] True by auto
  next
    case False
    then have c: "created s (e # es) = CREATE [fst e] (snd e) # created s es"
      by (simp add: created_def)
    let ?R1 = "deleteProp R (fst e)"
    have o: "isObject ?R1" using Cons.prems by simp
    have g: "getProp ?R1 k = getProp R k" if "hasProp s k \<or> k \<noteq> fst e" for k
      using that False by (intro getProp_deleteProp) auto
    have step: "foldl undoItem R (created s (e # es)) = foldl undoItem ?R1 (created s es)"
      by (simp add: c)
    show ?thesis
      unfolding step using Cons.IH[OF o] False g
      by (auto simp: hasProp_deleteProp)
  qed
qed


subsection \<open>Undoing a diff restores the old tree\<close>

text \<open>What undoing the entries of one key \<open>k\<close> does to the working copy \<open>R\<close>: the
  key holds a value equal in structure to the old value \<open>v\<close>, every other key is as
  before, and an array does not grow past a bound that the index respects.\<close>

definition restoredKey :: "key \<Rightarrow> node \<Rightarrow> node \<Rightarrow> node \<Rightarrow> bool" where
  "restoredKey k v R R' =
     (isObject R' \<and> isArr R' = isArr R
      \<and> hasProp R' k \<and> structEq v (getProp R' k)
      \<and> (\<forall>k'. k' \<noteq> k \<longrightarrow> hasProp R' k' = hasProp R k' \<and> getProp R' k' = getProp R k')
      \<and> (\<forall>n. alen R \<le> n \<longrightarrow> (\<forall>i. k = KIdx i \<longrightarrow> i < n) \<longrightarrow> alen R' \<le> n))"

definition restoredKeys :: "(key \<times> node) list \<Rightarrow> node \<Rightarrow> node \<Rightarrow> bool" where
  "restoredKeys es R R' =
     (isObject R' \<and> isArr R' = isArr R
      \<and> (\<forall>kv\<in>set es. hasProp R' (fst kv) \<and> structEq (snd kv) (getProp R' (fst kv)))
      \<and> (\<forall>k'. k' \<notin> fst ` set es \<longrightarrow> hasProp R' k' = hasProp R k' \<and> getProp R' k' = getProp R k')
      \<and> (\<forall>n. alen R \<le> n \<longrightarrow> (\<forall>i. KIdx i \<in> fst ` set es \<longrightarrow> i < n) \<longrightarrow> alen R' \<le> n))"

lemma restoredKey_assign:
  assumes "isObject R" "isArr R \<longrightarrow> isIndex k" "c \<noteq> Hole" "structEq v c"
  shows "restoredKey k v R (assignProp R k c)"
  using assms
  by (simp add: restoredKey_def hasProp_assignProp getProp_assignProp alen_assignProp)

lemma restoredKey_same:
  assumes "isObject R" "hasProp R k" "structEq v (getProp R k)"
  shows "restoredKey k v R R"
  using assms by (simp add: restoredKey_def)

lemma restoredKeys_Cons:
  assumes k: "restoredKey k v R R1" and es: "restoredKeys es R1 R'" and d: "k \<notin> fst ` set es"
  shows "restoredKeys ((k, v) # es) R R'"
proof -
  have 1: "isObject R'" "isArr R' = isArr R"
    using k es by (simp_all add: restoredKey_def restoredKeys_def)
  have 2: "hasProp R' k \<and> structEq v (getProp R' k)"
    using k es d by (simp add: restoredKey_def restoredKeys_def)
  have 3: "\<forall>kv\<in>set es. hasProp R' (fst kv) \<and> structEq (snd kv) (getProp R' (fst kv))"
    using es by (simp add: restoredKeys_def)
  have 4: "hasProp R' k' = hasProp R k' \<and> getProp R' k' = getProp R k'"
    if "k' \<notin> fst ` set ((k, v) # es)" for k'
  proof -
    have a: "k' \<noteq> k" "k' \<notin> fst ` set es" using that by auto
    have "hasProp R' k' = hasProp R1 k' \<and> getProp R' k' = getProp R1 k'"
      using es a(2) by (simp add: restoredKeys_def)
    moreover have "hasProp R1 k' = hasProp R k' \<and> getProp R1 k' = getProp R k'"
      using k a(1) by (simp add: restoredKey_def)
    ultimately show ?thesis by simp
  qed
  have 5: "alen R' \<le> n" if "alen R \<le> n" "\<forall>i. KIdx i \<in> fst ` set ((k, v) # es) \<longrightarrow> i < n" for n
  proof -
    have "alen R1 \<le> n" using k that by (simp add: restoredKey_def)
    then show ?thesis using es that(2) by (simp add: restoredKeys_def)
  qed
  show ?thesis
    unfolding restoredKeys_def using 1 2 3 4 5 by auto
qed

lemma hasProp_idx_alen: "hasProp R (KIdx i) \<Longrightarrow> isArr R \<Longrightarrow> i < alen R"
  by (cases R) auto

lemma not_isArr_alen: "\<not> isArr R \<Longrightarrow> alen R = 0"
  by (cases R) auto

lemma undo_diff_aux:
  "isObject s \<longrightarrow> isObject t \<longrightarrow> wellFormed s \<longrightarrow> wellFormed t \<longrightarrow> restorable s t
     \<longrightarrow> structEq s (foldl undoItem t (diff s t))"
  "\<forall>R. isObject R \<longrightarrow> (isArr R \<longrightarrow> (\<forall>k\<in>fst ` set es. isIndex k)) \<longrightarrow> distinct (map fst es)
     \<longrightarrow> wellFormedEntries es \<longrightarrow> wellFormed t \<longrightarrow> restorableEntries es t
     \<longrightarrow> (\<forall>k\<in>fst ` set es. hasProp R k = hasProp t k \<and> getProp R k = getProp t k)
     \<longrightarrow> restoredKeys es R (foldl undoItem R (diffEntries es t))"
proof (induction s t and es t rule: diff_diffEntries.induct)
  case (1 s t)
  show ?case
  proof (intro impI)
    assume os: "isObject s" and ot: "isObject t" and ws: "wellFormed s" and wt: "wellFormed t"
      and r: "restorable s t"
    define R1 where "R1 = foldl undoItem t (diffEntries (entries s) t)"
    define R2 where "R2 = foldl undoItem R1 (created s (entries t))"
    have kind: "isArr s = isArr t" and len: "alen t \<le> alen s"
      and re: "restorableEntries (entries s) t"
      using r by (simp_all add: restorable.simps)
    have idx: "isArr t \<longrightarrow> (\<forall>k\<in>fst ` set (entries s). isIndex k)"
      using kind isArr_entries[of s] by auto
    have A: "restoredKeys (entries s) t R1"
      unfolding R1_def using 1 ot idx wellFormed_distinct[OF ws] wellFormed_entries[OF ws] wt re
      by simp
    have o1: "isObject R1" and a1: "isArr R1 = isArr t"
      using A by (simp_all add: restoredKeys_def)
    have in1: "hasProp R1 (fst kv) \<and> structEq (snd kv) (getProp R1 (fst kv))"
      if "kv \<in> set (entries s)" for kv
      using A that by (simp add: restoredKeys_def)
    have out1: "hasProp R1 k = hasProp t k \<and> getProp R1 k = getProp t k"
      if "\<not> hasProp s k" for k
      using A that by (simp add: restoredKeys_def hasProp_entries)
    have B: "isObject R2" "isArr R2 = isArr R1" "alen R2 = alen R1"
      "\<And>k. hasProp R2 k = (hasProp R1 k \<and> \<not> (hasProp t k \<and> \<not> hasProp s k))"
      "\<And>k. \<not> (hasProp t k \<and> \<not> hasProp s k) \<Longrightarrow> getProp R2 k = getProp R1 k"
      unfolding R2_def using foldl_undoItem_created[OF o1, of s "entries t"]
      by (simp_all add: hasProp_entries)
    have alen1: "alen R1 = alen s"
    proof (cases "isArr s")
      case False
      then show ?thesis using a1 kind by (simp add: not_isArr_alen)
    next
      case True
      have "\<forall>i. KIdx i \<in> fst ` set (entries s) \<longrightarrow> i < alen s"
        using wellFormed_Arr_hasProp[OF ws True] by (simp add: hasProp_entries[symmetric])
      then have up: "alen R1 \<le> alen s"
        using A len by (simp add: restoredKeys_def)
      have low: "alen s \<le> alen R1"
      proof (cases "alen s")
        case 0
        then show ?thesis by simp
      next
        case (Suc j)
        then have "hasProp s (KIdx j)" using wellFormed_Arr_hasProp[OF ws True, of j] by simp
        then have "(KIdx j, getProp s (KIdx j)) \<in> set (entries s)" by (rule getProp_entries)
        then have "hasProp R1 (KIdx j)" using in1 by fastforce
        then have "j < alen R1" using a1 kind True by (intro hasProp_idx_alen) simp_all
        then show ?thesis using Suc by simp
      qed
      show ?thesis using up low by simp
    qed
    have keys: "fst ` set (entries R2) \<subseteq> fst ` set (entries s)"
    proof
      fix k assume "k \<in> fst ` set (entries R2)"
      then have h2: "hasProp R2 k" by (simp add: hasProp_entries)
      have "hasProp s k"
      proof (rule ccontr)
        assume n: "\<not> hasProp s k"
        then have "hasProp R1 k = hasProp t k" using out1 by simp
        then show False using h2 n B(4)[of k] by simp
      qed
      then show "k \<in> fst ` set (entries s)" by (simp add: hasProp_entries)
    qed
    have vals: "structEqEntries (entries s) R2"
      unfolding structEqEntries_iff
    proof
      fix kv assume m: "kv \<in> set (entries s)"
      then have hs: "hasProp s (fst kv)" by (simp add: hasProp_entries)
      have "hasProp R2 (fst kv) = hasProp R1 (fst kv)" "getProp R2 (fst kv) = getProp R1 (fst kv)"
        using hs B(4)[of "fst kv"] B(5)[of "fst kv"] by simp_all
      then show "hasProp R2 (fst kv) \<and> structEq (snd kv) (getProp R2 (fst kv))"
        using in1[OF m] by simp
    qed
    have "structEq s R2"
      using os B(1,2,3) a1 kind alen1 keys vals by (simp add: structEq.simps)
    then show "structEq s (foldl undoItem t (diff s t))"
      by (simp add: R1_def R2_def)
  qed
next
  case (2 t)
  show ?case by (simp add: restoredKeys_def)
next
  case (3 k v es t)
  show ?case
  proof (intro allI impI)
    fix R
    assume oR: "isObject R"
      and idx: "isArr R \<longrightarrow> (\<forall>k\<in>fst ` set ((k, v) # es). isIndex k)"
      and dist: "distinct (map fst ((k, v) # es))"
      and wfe: "wellFormedEntries ((k, v) # es)"
      and wt: "wellFormed t"
      and re: "restorableEntries ((k, v) # es) t"
      and agree: "\<forall>k\<in>fst ` set ((k, v) # es). hasProp R k = hasProp t k \<and> getProp R k = getProp t k"
    define ds where "ds =
       (if \<not> hasProp t k then [REMOVE [k] v]
        else if v = getProp t k then []
        else if isObject v \<and> isObject (getProp t k)
             then map (prepend k) (diff v (getProp t k))
        else [CHANGE [k] (getProp t k) v])"
    define R1 where "R1 = foldl undoItem R ds"
    have split: "foldl undoItem R (diffEntries ((k, v) # es) t)
                   = foldl undoItem R1 (diffEntries es t)"
      by (simp add: ds_def R1_def)
    have wv: "wellFormed v" and vH: "v \<noteq> Hole" using wfe by auto
    have ik: "isArr R \<longrightarrow> isIndex k" using idx by simp
    have ak: "hasProp R k = hasProp t k" "getProp R k = getProp t k" using agree by simp_all
    have one: "restoredKey k v R R1"
    proof (cases "hasProp t k")
      case False
      then have "R1 = assignProp R k v" using oR by (simp add: R1_def ds_def lodash_set_def)
      then show ?thesis using restoredKey_assign[OF oR ik vH structEq_same[OF wv]] by simp
    next
      case has: True
      show ?thesis
      proof (cases "v = getProp t k")
        case True
        then have "R1 = R" using has by (simp add: R1_def ds_def)
        then show ?thesis
          using restoredKey_same[OF oR, of k v] ak has True structEq_same[OF wv] by simp
      next
        case ne: False
        show ?thesis
        proof (cases "isObject v \<and> isObject (getProp t k)")
          case True
          let ?w = "getProp t k"
          let ?c = "foldl undoItem ?w (diff v ?w)"
          have ww: "wellFormed ?w" using wt has by (rule wellFormed_getProp)
          have rr: "restorable v ?w" using re has True by simp
          have eq: "structEq v ?c" using 3(1) has ne True wv ww rr by simp
          have oc: "isObject ?c" using True by (simp add: isObject_foldl_undoItem)
          have "R1 = foldl undoItem R (map (prepend k) (diff v ?w))"
            using has ne True by (simp add: R1_def ds_def)
          also have "\<dots> = assignProp R k (foldl undoItem (getProp R k) (diff v ?w))"
            using ak has oR ik True diff_paths(1)[of v ?w]
            by (intro foldl_undoItem_prepend) simp_all
          finally have "R1 = assignProp R k ?c" using ak by simp
          then show ?thesis
            using restoredKey_assign[OF oR ik isObject_not_Hole[OF oc] eq] by simp
        next
          case False
          then have "R1 = assignProp R k v"
            using oR has ne by (auto simp: R1_def ds_def lodash_set_def)
          then show ?thesis using restoredKey_assign[OF oR ik vH structEq_same[OF wv]] by simp
        qed
      qed
    qed
    have o1: "isObject R1" and a1: "isArr R1 = isArr R"
      using one by (simp_all add: restoredKey_def)
    have kn: "k \<notin> fst ` set es" using dist by (simp add: image_iff) 
    have agree1: "\<forall>k'\<in>fst ` set es. hasProp R1 k' = hasProp t k' \<and> getProp R1 k' = getProp t k'"
    proof
      fix k' assume m: "k' \<in> fst ` set es"
      then have "k' \<noteq> k" using kn by auto
      then have "hasProp R1 k' = hasProp R k' \<and> getProp R1 k' = getProp R k'"
        using one by (simp add: restoredKey_def)
      then show "hasProp R1 k' = hasProp t k' \<and> getProp R1 k' = getProp t k'"
        using agree m by simp
    qed
    have rest: "restoredKeys es R1 (foldl undoItem R1 (diffEntries es t))"
      using 3(2) o1 a1 idx dist wfe wt re agree1 by simp
    show "restoredKeys ((k, v) # es) R (foldl undoItem R (diffEntries ((k, v) # es) t))"
      unfolding split using one rest kn by (rule restoredKeys_Cons)
  qed
qed

text \<open>
  The loop of \<open>undo\<close>, run on the new tree with the diff of the old and the new tree,
  gives back the old tree.
\<close>

theorem undo_diff:
  assumes "isObject s" "isObject t" "wellFormed s" "wellFormed t" "restorable s t"
  shows "structEq s (foldl undoItem t (diff s t))"
  using undo_diff_aux(1)[of s t] assms by simp

section \<open>Round trip of mutate and undo\<close>

lemma mutate_fields:
  "current (mutate dff m st) = m (cloneDeep (current st))"
  "isPaused (mutate dff m st) = isPaused st"
  by (simp_all add: op_defs Let_def)

lemma undo_mutate:
  assumes ok: "ledger_ok st" and np: "\<not> didChangeWhilePaused st"
  shows "undo dff (mutate dff m st) =
     Inr ((mutate dff m st)
        \<lparr>isPaused := False, didChangeWhilePaused := False,
         history := take (nat (pointer st + 1)) (history st)
                    @ [dff (current st) (m (cloneDeep (current st)))],
         pointer := pointer st, prev := m (cloneDeep (current st)),
         current := foldl undoItem (cloneDeep (m (cloneDeep (current st))))
                      (dff (current st) (m (cloneDeep (current st)))),
         notified := notified st @ [m (cloneDeep (current st)),
            foldl undoItem (cloneDeep (m (cloneDeep (current st))))
              (dff (current st) (m (cloneDeep (current st))))]\<rparr>)"
proof -
  define n where "n = nat (pointer st + 1)"
  have p: "pointer st = int n - 1" and len: "n \<le> length (history st)"
    using ok by (auto simp: ledger_ok_def n_def)
  have l: "length (take n (history st)) = n" using len by simp
  show ?thesis
  proof (cases "isPaused st")
    case True
    then show ?thesis using np p l
      by (simp add: undo_def canUndo_pointer entryAt_def op_defs Let_def nth_append n_def[symmetric])
  next
    case False
    then show ?thesis using np p l
      by (simp add: undo_def canUndo_pointer entryAt_def op_defs Let_def nth_append n_def[symmetric])
  qed
qed

text \<open>
  C1 (amended). On a store with no pending change of a pause (not paused, or paused and
  unchanged since), whose state \<open>S\<close> and whose mutated state \<open>m S\<close> are well-formed
  objects with \<open>restorable S (m S)\<close>: \<open>mutate\<close> publishes the mutator's result on
  the deep copy, and \<open>undo\<close> right after it publishes a state equal in structure to
  \<open>S\<close>. Arrays that the mutation makes longer, and an object put where an array was
  (or the reverse), are left out of the statement.
\<close>

theorem C1_mutate_undo:
  assumes "ledger_ok st" "\<not> didChangeWhilePaused st"
    and "isObject (current st)" "wellFormed (current st)"
    and "isObject (m (current st))" "wellFormed (m (current st))"
    and "restorable (current st) (m (current st))"
  shows "current (mutate diff m st) = m (cloneDeep (current st))
       \<and> (\<exists>st'. undo diff (mutate diff m st) = Inr st' \<and> structEq (current st) (current st'))"
proof -
  have c: "cloneDeep (current st) = current st" "cloneDeep (m (current st)) = m (current st)"
    using assms(4,6) by (simp_all add: cloneDeep_wellFormed)
  have "structEq (current st) (foldl undoItem (m (current st)) (diff (current st) (m (current st))))"
    using assms(3-7) by (intro undo_diff)
  then show ?thesis
    unfolding undo_mutate[OF assms(1,2)] by (simp add: mutate_fields c)
qed

text \<open>
  C1 as stated fails on a store that is paused with a pending change: \<open>store0\<close> has the
  state \<^verbatim>\<open>{v: 1}\<close>; after \<^verbatim>\<open>mutate(s => { s.v = 2 })\<close> the \<open>undo\<close> goes back
  to \<^verbatim>\<open>{v: 0}\<close>, the state at which the pause began, not to \<^verbatim>\<open>{v: 1}\<close>.
\<close>

theorem C1_paused_pending:
  "current store0 = Obj [(KStr ''v'', NumV 1)]
   \<and> undo diff (mutate diff (setV 2) store0)
       = Inr \<lparr>prev = Obj [(KStr ''v'', NumV 2)], current = Obj [(KStr ''v'', NumV 0)],
              pointer = -1, history = [[CHANGE [KStr ''v''] (NumV 2) (NumV 0)]],
              isPaused = False, didChangeWhilePaused = False,
              notified = [Obj [(KStr ''v'', NumV 0)], Obj [(KStr ''v'', NumV 1)],
                          Obj [(KStr ''v'', NumV 2)], Obj [(KStr ''v'', NumV 0)]]\<rparr>
   \<and> structEq (Obj [(KStr ''v'', NumV 1)]) (Obj [(KStr ''v'', NumV 0)]) = False"
  by (simp add: store0_eq setV_def undo_def canUndo_def entryAt_def op_defs Let_def
      created_def lodash_set_def structEq.simps)

text \<open>A state with a nested object and an array, for the witnesses.\<close>

definition sampleState :: node where
  "sampleState = Obj [(KStr ''name'', StrV ''Steve''), (KStr ''age'', NumV 36),
     (KStr ''interests'', Obj [(KStr ''manga'', BoolV False), (KStr ''anime'', BoolV False)]),
     (KStr ''tags'', Arr [NumV 1, NumV 2])]"

text \<open>\<^verbatim>\<open>s => { s.name = "Kyle"; s.interests.manga = true; delete s.age; s.tags.pop();
  s.city = "Berlin" }\<close>, as the function from the copy to the changed copy.\<close>

definition sampleMutator :: "node \<Rightarrow> node" where
  "sampleMutator s =
     assignProp
       (lodash_set
         (lodash_unset
           (lodash_set (assignProp s (KStr ''name'') (StrV ''Kyle''))
              [KStr ''interests'', KStr ''manga''] (BoolV True))
           [KStr ''age''])
         [KStr ''tags''] (Arr (butlast (case getProp s (KStr ''tags'') of Arr xs \<Rightarrow> xs | _ \<Rightarrow> []))))
       (KStr ''city'') (StrV ''Berlin'')"

lemma sampleMutator_eq:
  "sampleMutator sampleState = Obj [(KStr ''name'', StrV ''Kyle''),
     (KStr ''interests'', Obj [(KStr ''manga'', BoolV True), (KStr ''anime'', BoolV False)]),
     (KStr ''tags'', Arr [NumV 1]), (KStr ''city'', StrV ''Berlin'')]"
  by (simp add: sampleMutator_def sampleState_def lodash_set_def Let_def assignIndex_def)

theorem C1_mutate_undo_witness:
  "ledger_ok (new_Trashly sampleState)
   \<and> didChangeWhilePaused (new_Trashly sampleState) = False
   \<and> isObject sampleState \<and> wellFormed sampleState
   \<and> isObject (sampleMutator sampleState) \<and> wellFormed (sampleMutator sampleState)
   \<and> restorable sampleState (sampleMutator sampleState)
   \<and> current (mutate diff sampleMutator (new_Trashly sampleState)) = sampleMutator sampleState
   \<and> (\<exists>st'. undo diff (mutate diff sampleMutator (new_Trashly sampleState)) = Inr st'
         \<and> structEq sampleState (current st'))"
proof -
  let ?N = "new_Trashly sampleState"
  have c: "current ?N = sampleState" by (simp add: new_Trashly_def)
  have 1: "ledger_ok ?N" by (simp add: ledger_ok_def new_Trashly_def)
  have 2: "\<not> didChangeWhilePaused ?N" by (simp add: new_Trashly_def)
  have 3: "isObject (current ?N)" "wellFormed (current ?N)"
    unfolding c by (simp_all add: sampleState_def)
  have 4: "isObject (sampleMutator (current ?N))" "wellFormed (sampleMutator (current ?N))"
    unfolding c sampleMutator_eq by simp_all
  have 5: "restorable (current ?N) (sampleMutator (current ?N))"
    unfolding c sampleMutator_eq by (simp add: sampleState_def restorable.simps)
  show ?thesis
    using C1_mutate_undo[where m = sampleMutator and st = "?N", OF 1 2 3 4 5] 1 2 3 4 5
    by (simp add: c cloneDeep_wellFormed)
qed

text \<open>\<^verbatim>\<open>s => { s.xs.push(i) }\<close>\<close>

definition pushXs :: "int \<Rightarrow> node \<Rightarrow> node" where
  "pushXs i s =
     (case getProp s (KStr ''xs'') of
        Arr xs \<Rightarrow> assignProp s (KStr ''xs'') (Arr (xs @ [NumV i]))
      | _ \<Rightarrow> s)"

text \<open>
  C2. The claim: after \<^verbatim>\<open>pause(); mutate(...); resume()\<close> one \<open>undo\<close> restores the
  state from before the pause. On \<^verbatim>\<open>{xs: [1]}\<close> with the mutation
  \<^verbatim>\<open>s => { s.xs.push(2) }\<close> the one patch is \<^verbatim>\<open>CREATE ["xs", 1] 2\<close>, and
  \<open>undo\<close> undoes a CREATE with \<^verbatim>\<open>unset\<close>: the slot is emptied, the array keeps
  length 2, and the state is not the one from before the pause.
\<close>

theorem C2_undo_after_array_push:
  "run diff [Pause, Mutate (pushXs 2), Resume, Undo] (new_Trashly (Obj [(KStr ''xs'', Arr [NumV 1])]))
     = Inr \<lparr>prev = Obj [(KStr ''xs'', Arr [NumV 1, NumV 2])],
            current = Obj [(KStr ''xs'', Arr [NumV 1, Hole])],
            pointer = -1, history = [[CREATE [KStr ''xs'', KIdx 1] (NumV 2)]],
            isPaused = False, didChangeWhilePaused = False,
            notified = [Obj [(KStr ''xs'', Arr [NumV 1])], Obj [(KStr ''xs'', Arr [NumV 1, NumV 2])],
                        Obj [(KStr ''xs'', Arr [NumV 1, NumV 2])], Obj [(KStr ''xs'', Arr [NumV 1, Hole])]]\<rparr>
   \<and> structEq (Obj [(KStr ''xs'', Arr [NumV 1])]) (Obj [(KStr ''xs'', Arr [NumV 1, Hole])]) = False"
  by (simp add: pushXs_def new_Trashly_def undo_def canUndo_def entryAt_def op_defs Let_def
      created_def structEq.simps)


lemma paused_mutations:
  assumes "isPaused st"
  shows "history (foldl (\<lambda>s m. mutate dff m s) st ms) = history st
       \<and> pointer (foldl (\<lambda>s m. mutate dff m s) st ms) = pointer st
       \<and> isPaused (foldl (\<lambda>s m. mutate dff m s) st ms)
       \<and> didChangeWhilePaused (foldl (\<lambda>s m. mutate dff m s) st ms)
           = (didChangeWhilePaused st \<or> ms \<noteq> [])
       \<and> prev (foldl (\<lambda>s m. mutate dff m s) st ms)
           = (if didChangeWhilePaused st \<or> ms = [] then prev st else current st)
       \<and> current (foldl (\<lambda>s m. mutate dff m s) st ms)
           = foldl (\<lambda>s m. m (cloneDeep s)) (current st) ms"
  using assms
proof (induction ms arbitrary: st)
  case Nil
  then show ?case by simp
next
  case (Cons m ms)
  have p: "isPaused (mutate dff m st)" using Cons.prems by (simp add: op_defs Let_def)
  have f: "history (mutate dff m st) = history st" "pointer (mutate dff m st) = pointer st"
    "didChangeWhilePaused (mutate dff m st)"
    "current (mutate dff m st) = m (cloneDeep (current st))"
    "prev (mutate dff m st) = (if didChangeWhilePaused st then prev st else current st)"
    using Cons.prems by (simp_all add: op_defs Let_def)
  show ?case using Cons.IH[OF p] f by simp
qed

lemma run_mutates:
  "run dff (map Mutate ms @ xs) st = run dff xs (foldl (\<lambda>s m. mutate dff m s) st ms)"
  by (induction ms arbitrary: st) auto

text \<open>
  Pause coalescing, on the trees that \<open>undo\<close> can restore: while the store is paused
  the mutations leave history and pointer alone; \<open>resume\<close> cuts the history after the
  pointer and appends one patch, the diff of the state at \<open>pause\<close> and the state at
  \<open>resume\<close>; one \<open>undo\<close> then gives back the state at \<open>pause\<close>.
\<close>

lemma pause_coalescing:
  assumes ok: "ledger_ok st" and clean: "\<not> didChangeWhilePaused st" and ne: "ms \<noteq> []"
    and T: "T = foldl (\<lambda>s m. m (cloneDeep s)) (current st) ms"
    and trees: "isObject (current st)" "wellFormed (current st)" "isObject T" "wellFormed T"
      "restorable (current st) T"
  shows "\<exists>st1 st2.
           run diff (Pause # map Mutate ms) st = Inr st1
         \<and> history st1 = history st \<and> pointer st1 = pointer st
         \<and> history (resume diff st1) = take (nat (pointer st + 1)) (history st) @ [diff (current st) T]
         \<and> run diff (Pause # map Mutate ms @ [Resume, Undo]) st = Inr st2
         \<and> structEq (current st) (current st2)"
proof -
  define st1 where "st1 = foldl (\<lambda>s m. mutate diff m s) (pause st) ms"
  have pp: "isPaused (pause st)" "history (pause st) = history st"
    "pointer (pause st) = pointer st" "current (pause st) = current st"
    "didChangeWhilePaused (pause st) = False"
    using clean by (simp_all add: op_defs)
  have f: "history st1 = history st" "pointer st1 = pointer st" "isPaused st1"
    "didChangeWhilePaused st1" "prev st1 = current st" "current st1 = T"
    unfolding st1_def T using paused_mutations[OF pp(1), of diff ms] pp ne by simp_all
  have "run diff (Pause # map Mutate ms) st = run diff (map Mutate ms @ []) (pause st)"
    by simp
  also have "\<dots> = run diff [] st1"
    unfolding st1_def by (rule run_mutates)
  finally have r1: "run diff (Pause # map Mutate ms) st = Inr st1" by simp
  define n where "n = nat (pointer st + 1)"
  have p: "pointer st = int n - 1" and len: "length (take n (history st)) = n"
    using ok by (auto simp: ledger_ok_def n_def)
  define st2 where "st2 = resume diff st1"
  have g0: "history st2 = take n (history st) @ [diff (current st) T]"
    "pointer st2 = pointer st + 1" "isPaused st2 = False" "current st2 = T"
    using f by (simp_all add: st2_def op_defs Let_def n_def)
  have g: "history st2 = take n (history st) @ [diff (current st) T]" "pointer st2 = int n"
    "isPaused st2 = False" "current st2 = T"
    using g0 p by simp_all
  have cT: "cloneDeep T = T"
    using trees(4) by (rule cloneDeep_wellFormed)
  have u: "undo diff st2 = Inr (st2\<lparr>pointer := pointer st2 - 1, prev := current st2,
            current := foldl undoItem T (diff (current st) T),
            notified := notified st2 @ [foldl undoItem T (diff (current st) T)]\<rparr>)"
    using g len by (simp add: undo_unpaused nth_append cT)
  have "run diff (Pause # map Mutate ms @ [Resume, Undo]) st
          = run diff (map Mutate ms @ [Resume, Undo]) (pause st)"
    by simp
  also have "\<dots> = run diff [Resume, Undo] st1"
    unfolding st1_def by (rule run_mutates)
  also have "\<dots> = undo diff st2"
    by (simp add: st2_def split: sum.splits)
  finally have r2: "run diff (Pause # map Mutate ms @ [Resume, Undo]) st = undo diff st2" .
  have "structEq (current st) (foldl undoItem T (diff (current st) T))"
    using trees by (intro undo_diff)
  then show ?thesis
    using r1 f(1,2) g(1) r2 u unfolding st2_def n_def by auto
qed

section \<open>References: the copy-on-write applier and deep copies\<close>

text \<open>
  Which nodes two snapshots share is a question about references, not about trees. Here
  the values are scalars or references into a heap of objects. An object (a cell of the
  heap) has its own properties in insertion order; an array is an object flagged as
  array, with its elements under the index keys and its \<^verbatim>\<open>length\<close>; an index
  without a property is an empty slot. \<open>VSymbol\<close> is \<^verbatim>\<open>REMOVE_SYMBOL\<close>, the one
  symbol of the module. A new object gets the next free address.
\<close>

type_synonym addr = nat

datatype val =
    VUndefined
  | VNull
  | VBool bool
  | VNum int
  | VStr string
  | VSymbol
  | VRef addr

record cell =
  isArray :: bool
  props :: "(key \<times> val) list"
  len :: nat

record heap =
  cellOf :: "addr \<Rightarrow> cell"
  free :: addr

definition alloc :: "heap \<Rightarrow> cell \<Rightarrow> heap \<times> addr" where
  "alloc h c = (h\<lparr>cellOf := (cellOf h)(free h := c), free := Suc (free h)\<rparr>, free h)"

text \<open>
  \<^verbatim>\<open>t[k]\<close>, \<^verbatim>\<open>t[k] = v\<close> and \<^verbatim>\<open>delete t[k]\<close>. Reading a property of
  \<^verbatim>\<open>undefined\<close> or \<^verbatim>\<open>null\<close> throws; another scalar has no property here (the
  characters of a string are not modelled). The module is an ES module, hence strict
  code: writing a property to any scalar throws.
\<close>

fun readProp :: "heap \<Rightarrow> val \<Rightarrow> key \<Rightarrow> error + val" where
  "readProp h (VRef a) k =
     Inr (case map_of (props (cellOf h a)) k of Some v \<Rightarrow> v | None \<Rightarrow> VUndefined)"
| "readProp h VUndefined k = Inl TypeError"
| "readProp h VNull k = Inl TypeError"
| "readProp h v k = Inr VUndefined"

definition setCell :: "cell \<Rightarrow> key \<Rightarrow> val \<Rightarrow> cell" where
  "setCell c k v =
     c\<lparr>props := assignField (props c) k v,
       len := (case k of KIdx i \<Rightarrow> if isArray c then max (len c) (Suc i) else len c
               | KStr s \<Rightarrow> len c)\<rparr>"

fun writeProp :: "heap \<Rightarrow> val \<Rightarrow> key \<Rightarrow> val \<Rightarrow> error + heap" where
  "writeProp h (VRef a) k v = Inr (h\<lparr>cellOf := (cellOf h)(a := setCell (cellOf h a) k v)\<rparr>)"
| "writeProp h t k v = Inl TypeError"

fun deleteAt :: "heap \<Rightarrow> val \<Rightarrow> key \<Rightarrow> error + heap" where
  "deleteAt h (VRef a) k =
     Inr (h\<lparr>cellOf := (cellOf h)
            (a := (cellOf h a)\<lparr>props := filter (\<lambda>kv. fst kv \<noteq> k) (props (cellOf h a))\<rparr>)\<rparr>)"
| "deleteAt h VUndefined k = Inl TypeError"
| "deleteAt h VNull k = Inl TypeError"
| "deleteAt h v k = Inr h"

fun ownProps :: "heap \<Rightarrow> val \<Rightarrow> (key \<times> val) list" where
  "ownProps h (VRef a) = props (cellOf h a)"
| "ownProps h v = []"

fun isArrayV :: "heap \<Rightarrow> val \<Rightarrow> bool" where
  "isArrayV h (VRef a) = isArray (cellOf h a)"
| "isArrayV h v = False"

text \<open>The elements of an array in index order, empty slots skipped (what
  \<^verbatim>\<open>filter\<close> visits); \<^verbatim>\<open>slice()\<close>; an array literal; \<^verbatim>\<open>Object.assign({}, v)\<close>.\<close>

definition elements :: "cell \<Rightarrow> val list" where
  "elements c = List.map_filter (\<lambda>i. map_of (props c) (KIdx i)) [0..<len c]"

definition sliceCell :: "cell \<Rightarrow> cell" where
  "sliceCell c =
     \<lparr>isArray = True,
      props = List.map_filter
                (\<lambda>i. map_option (\<lambda>v. (KIdx i, v)) (map_of (props c) (KIdx i))) [0..<len c],
      len = len c\<rparr>"

definition arrayOf :: "val list \<Rightarrow> cell" where
  "arrayOf vs = \<lparr>isArray = True, props = zip (map KIdx [0..<length vs]) vs, len = length vs\<rparr>"

definition objectAssignEmpty :: "heap \<Rightarrow> val \<Rightarrow> heap \<times> addr" where
  "objectAssignEmpty h v = alloc h \<lparr>isArray = False, props = ownProps h v, len = 0\<rparr>"

text \<open>
  The function \<^verbatim>\<open>applyPatch(target, patch)\<close> of applyPatch.ts (the store's method of
  the same name is \<open>applyPatch\<close> above). \<open>walk\<close> is its inner \<^verbatim>\<open>for\<close> loop over
  all steps of the path but the last: a step that is not yet in \<^verbatim>\<open>refs\<close> gets a
  fresh shallow copy; \<^verbatim>\<open>refs\<close> holds steps, not paths.
\<close>

fun walk :: "heap \<Rightarrow> key set \<Rightarrow> val \<Rightarrow> key list \<Rightarrow> error + (heap \<times> key set \<times> val)" where
  "walk h refs t [] = Inr (h, refs, t)"
| "walk h refs t (k # rest) =
     (if k \<notin> refs then
        (case readProp h t k of
           Inl e \<Rightarrow> Inl e
         | Inr old \<Rightarrow>
             (case writeProp (fst (objectAssignEmpty h old)) t k
                     (VRef (snd (objectAssignEmpty h old))) of
                Inl e \<Rightarrow> Inl e
              | Inr h' \<Rightarrow>
                  (case readProp h' t k of
                     Inl e \<Rightarrow> Inl e
                   | Inr t' \<Rightarrow> walk h' (insert k refs) t' rest)))
      else
        (case readProp h t k of
           Inl e \<Rightarrow> Inl e
         | Inr t' \<Rightarrow> walk h refs t' rest))"

text \<open>\<^verbatim>\<open>path[path.length - 1]\<close> is \<^verbatim>\<open>undefined\<close> for the empty path, and as a
  property key that is the name \<^verbatim>\<open>"undefined"\<close>. The source takes
  \<^verbatim>\<open>secondToLastKey\<close> from the same index as \<^verbatim>\<open>lastKey\<close>.\<close>

definition propKey :: "key option \<Rightarrow> key" where
  "propKey k = (case k of Some k' \<Rightarrow> k' | None \<Rightarrow> KStr ''undefined'')"

definition lastKeyOf :: "path \<Rightarrow> key option" where
  "lastKeyOf p = (if p = [] then None else Some (last p))"

type_synonym applyState = "heap \<times> key set \<times> (val \<times> key option) list"

definition itemStep :: "val \<Rightarrow> applyState \<Rightarrow> val difference \<Rightarrow> error + applyState" where
  "itemStep next s item =
     (case s of (h, refs, delQueue) \<Rightarrow>
        (let path = pathOf item;
             secondToLastKey = lastKeyOf path;
             lastKey = lastKeyOf path
         in case walk h refs next (butlast path) of
              Inl e \<Rightarrow> Inl e
            | Inr (h1, refs1, t) \<Rightarrow>
                (case item of
                   CREATE p v \<Rightarrow>
                     (case writeProp h1 t (propKey lastKey) v of
                        Inl e \<Rightarrow> Inl e | Inr h2 \<Rightarrow> Inr (h2, refs1, delQueue))
                 | CHANGE p v old \<Rightarrow>
                     (case writeProp h1 t (propKey lastKey) v of
                        Inl e \<Rightarrow> Inl e | Inr h2 \<Rightarrow> Inr (h2, refs1, delQueue))
                 | REMOVE p old \<Rightarrow>
                     (if isArrayV h1 t then
                        (case writeProp h1 t (propKey lastKey) VSymbol of
                           Inl e \<Rightarrow> Inl e
                         | Inr h2 \<Rightarrow> Inr (h2, refs1, delQueue @ [(t, secondToLastKey)]))
                      else
                        (case deleteAt h1 t (propKey lastKey) of
                           Inl e \<Rightarrow> Inl e | Inr h2 \<Rightarrow> Inr (h2, refs1, delQueue))))))"

text \<open>
  An entry of \<^verbatim>\<open>delQueue\<close> is a closure over \<^verbatim>\<open>t\<close> and \<^verbatim>\<open>secondToLastKey\<close>.
  \<^verbatim>\<open>x.filter(...)\<close> is a call of a function only when \<^verbatim>\<open>x\<close> is an array;
  anything else throws. With no key the filtered copy of \<^verbatim>\<open>t\<close> is dropped.
\<close>

definition filterCall :: "heap \<Rightarrow> val \<Rightarrow> error + (heap \<times> addr)" where
  "filterCall h x =
     (case x of
        VRef b \<Rightarrow>
          (if isArray (cellOf h b)
           then Inr (alloc h (arrayOf (filter (\<lambda>v. v \<noteq> VSymbol) (elements (cellOf h b)))))
           else Inl TypeError)
      | _ \<Rightarrow> Inl TypeError)"

definition runDel :: "heap \<Rightarrow> val \<times> key option \<Rightarrow> error + heap" where
  "runDel h d =
     (case d of (t, secondToLastKey) \<Rightarrow>
        (case secondToLastKey of
           Some k \<Rightarrow>
             (case readProp h t k of
                Inl e \<Rightarrow> Inl e
              | Inr x \<Rightarrow>
                  (case filterCall h x of
                     Inl e \<Rightarrow> Inl e
                   | Inr (h1, a) \<Rightarrow> writeProp h1 t k (VRef a)))
         | None \<Rightarrow>
             (case filterCall h t of Inl e \<Rightarrow> Inl e | Inr (h1, a) \<Rightarrow> Inr h1)))"

fun foldE :: "('s \<Rightarrow> 'a \<Rightarrow> error + 's) \<Rightarrow> 's \<Rightarrow> 'a list \<Rightarrow> error + 's" where
  "foldE f s [] = Inr s"
| "foldE f s (x # xs) = (case f s x of Inl e \<Rightarrow> Inl e | Inr s' \<Rightarrow> foldE f s' xs)"

definition applyPatchFn :: "heap \<Rightarrow> val \<Rightarrow> val difference list \<Rightarrow> error + (heap \<times> val)" where
  "applyPatchFn h target p =
     (let (h0, next) =
            (if isArrayV h target
             then alloc h (sliceCell (cellOf h (case target of VRef a \<Rightarrow> a | _ \<Rightarrow> 0)))
             else objectAssignEmpty h target)
      in case foldE (itemStep (VRef next)) (h0, {}, []) p of
           Inl e \<Rightarrow> Inl e
         | Inr (h1, refs, delQueue) \<Rightarrow>
             (case foldE runDel h1 delQueue of
                Inl e \<Rightarrow> Inl e
              | Inr h2 \<Rightarrow> Inr (h2, VRef next)))"

text \<open>The array \<^verbatim>\<open>["a", "b", "c", "d", "e"]\<close> at address 0.\<close>

definition emptyHeap :: heap where
  "emptyHeap = \<lparr>cellOf = (\<lambda>a. \<lparr>isArray = False, props = [], len = 0\<rparr>), free = 0\<rparr>"

definition fiveHeap :: heap where
  "fiveHeap = fst (alloc emptyHeap (arrayOf [VStr ''a'', VStr ''b'', VStr ''c'', VStr ''d'', VStr ''e'']))"

lemma upt5: "[0..<5] = [0,1,2,3,4]" by (simp add: upt_rec)


fun assignPath :: "heap \<Rightarrow> val \<Rightarrow> path \<Rightarrow> val \<Rightarrow> error + heap" where
  "assignPath h s [] v = Inr h"
| "assignPath h s [k] v = writeProp h s k v"
| "assignPath h s (k # k' # ks) v =
     (case readProp h s k of Inl e \<Rightarrow> Inl e | Inr t \<Rightarrow> assignPath h t (k' # ks) v)"

text \<open>
  \<^verbatim>\<open>lodash.clonedeep\<close> on the heap: a scalar is returned as it is; an object gets a
  new object, registered as the copy of the original before its properties are cloned
  (so an object met twice is copied once), then every own property is cloned into it; of
  an array the indices below the length are cloned. The first argument bounds the depth
  of the recursion; \<open>cloneDeepRef\<close> gives one more than the number of objects.
\<close>

fun cloneVal :: "nat \<Rightarrow> heap \<Rightarrow> (addr \<times> addr) list \<Rightarrow> val
                 \<Rightarrow> (heap \<times> (addr \<times> addr) list \<times> val) option"
  and cloneProps :: "nat \<Rightarrow> heap \<Rightarrow> (addr \<times> addr) list \<Rightarrow> addr \<Rightarrow> (key \<times> val) list
                 \<Rightarrow> (heap \<times> (addr \<times> addr) list) option"
where
  "cloneVal 0 h seen v = None"
| "cloneVal (Suc n) h seen (VRef a) =
     (case map_of seen a of
        Some a' \<Rightarrow> Some (h, seen, VRef a')
      | None \<Rightarrow>
          (let c = cellOf h a;
               a' = free h;
               h1 = fst (alloc h \<lparr>isArray = isArray c, props = [], len = len c\<rparr>);
               src = (if isArray c
                      then map (\<lambda>i. (KIdx i, case map_of (props c) (KIdx i) of
                                                  Some v \<Rightarrow> v | None \<Rightarrow> VUndefined))
                             [0..<len c]
                      else props c)
           in case cloneProps n h1 ((a, a') # seen) a' src of
                None \<Rightarrow> None
              | Some (h2, seen2) \<Rightarrow> Some (h2, seen2, VRef a')))"
| "cloneVal (Suc n) h seen v = Some (h, seen, v)"
| "cloneProps n h seen a' [] = Some (h, seen)"
| "cloneProps n h seen a' ((k, v) # ps) =
     (case cloneVal n h seen v of
        None \<Rightarrow> None
      | Some (h1, seen1, v') \<Rightarrow>
          cloneProps n (h1\<lparr>cellOf := (cellOf h1)(a' := setCell (cellOf h1 a') k v')\<rparr>)
            seen1 a' ps)"

lemma cloneVal_numeral:
  "cloneVal (numeral j) h seen (VRef a) =
     (case map_of seen a of
        Some a' \<Rightarrow> Some (h, seen, VRef a')
      | None \<Rightarrow>
          (let c = cellOf h a;
               a' = free h;
               h1 = fst (alloc h \<lparr>isArray = isArray c, props = [], len = len c\<rparr>);
               src = (if isArray c
                      then map (\<lambda>i. (KIdx i, case map_of (props c) (KIdx i) of
                                                  Some v \<Rightarrow> v | None \<Rightarrow> VUndefined))
                             [0..<len c]
                      else props c)
           in case cloneProps (pred_numeral j) h1 ((a, a') # seen) a' src of
                None \<Rightarrow> None
              | Some (h2, seen2) \<Rightarrow> Some (h2, seen2, VRef a')))"
  "cloneVal (numeral j) h seen VUndefined = Some (h, seen, VUndefined)"
  "cloneVal (numeral j) h seen VNull = Some (h, seen, VNull)"
  "cloneVal (numeral j) h seen (VBool b) = Some (h, seen, VBool b)"
  "cloneVal (numeral j) h seen (VNum i) = Some (h, seen, VNum i)"
  "cloneVal (numeral j) h seen (VStr s) = Some (h, seen, VStr s)"
  "cloneVal (numeral j) h seen VSymbol = Some (h, seen, VSymbol)"
  by (simp_all add: numeral_eq_Suc)

definition cloneDeepRef :: "heap \<Rightarrow> val \<Rightarrow> (heap \<times> val) option" where
  "cloneDeepRef h v =
     (case cloneVal (Suc (free h)) h [] v of
        None \<Rightarrow> None
      | Some (h', seen, v') \<Rightarrow> Some (h', v'))"

text \<open>
  \<^verbatim>\<open>Trashly.mutate\<close> as far as references go: \<^verbatim>\<open>next = cloneDeep(this.current);
  mutator(next); this.current = next\<close>. The result is the new heap and the new
  \<^verbatim>\<open>current\<close>. (The history is the business of \<open>mutate\<close> above.)
\<close>

definition mutateRef :: "(heap \<Rightarrow> val \<Rightarrow> error + heap) \<Rightarrow> heap \<Rightarrow> val
                          \<Rightarrow> (error + heap \<times> val) option" where
  "mutateRef mutator h cur =
     (case cloneDeepRef h cur of
        None \<Rightarrow> None
      | Some (h1, next) \<Rightarrow>
          Some (case mutator h1 next of Inl e \<Rightarrow> Inl e | Inr h2 \<Rightarrow> Inr (h2, next)))"

definition objCell :: "(key \<times> val) list \<Rightarrow> cell" where
  "objCell ps = \<lparr>isArray = False, props = ps, len = 0\<rparr>"

text \<open>The state \<^verbatim>\<open>{a: {b: {c: 1}, d: {e: 2}}}\<close> at address 0, and the mutator
  \<^verbatim>\<open>s => { s.a.b.c = 5 }\<close>.\<close>

definition treeHeap :: heap where
  "treeHeap =
     \<lparr>cellOf = (\<lambda>x. objCell [])
        (0 := objCell [(KStr ''a'', VRef 1)],
         1 := objCell [(KStr ''b'', VRef 2), (KStr ''d'', VRef 3)],
         2 := objCell [(KStr ''c'', VNum 1)],
         3 := objCell [(KStr ''e'', VNum 2)]),
      free = 4\<rparr>"


definition touchABC :: "heap \<Rightarrow> val \<Rightarrow> error + heap" where
  "touchABC h s = assignPath h s [KStr ''a'', KStr ''b'', KStr ''c''] (VNum 5)"

definition afterMutate :: "heap \<times> val" where
  "afterMutate =
     (case mutateRef touchABC treeHeap (VRef 0) of
        Some (Inr hv) \<Rightarrow> hv
      | _ \<Rightarrow> (treeHeap, VUndefined))"

lemma afterMutate_ok: "mutateRef touchABC treeHeap (VRef 0) = Some (Inr afterMutate)"
  by (simp add: afterMutate_def mutateRef_def cloneDeepRef_def treeHeap_def touchABC_def
      objCell_def alloc_def setCell_def Let_def cloneVal_numeral)










text \<open>\<^verbatim>\<open>{ ...a, ...b }\<close> on the heap: a new plain object; its property values are the
  values of \<open>a\<close> and \<open>b\<close> themselves.\<close>

definition spreadRef :: "heap \<Rightarrow> val \<Rightarrow> val \<Rightarrow> heap \<times> addr" where
  "spreadRef h a b =
     alloc h \<lparr>isArray = False,
              props = foldl (\<lambda>fs kv. assignField fs (fst kv) (snd kv)) (ownProps h a) (ownProps h b),
              len = 0\<rparr>"

lemma spreadRef_props:
  assumes "distinct (map fst (ownProps h p))"
  shows "readProp (fst (spreadRef h cur p)) (VRef (snd (spreadRef h cur p))) k =
           Inr (case map_of (ownProps h p) k of
                  Some v \<Rightarrow> v
                | None \<Rightarrow> (case map_of (ownProps h cur) k of Some v \<Rightarrow> v | None \<Rightarrow> VUndefined))"
    and "\<forall>x<free h. cellOf (fst (spreadRef h cur p)) x = cellOf h x"
    and "snd (spreadRef h cur p) = free h"
  using map_of_foldl_assignField[OF assms, of "ownProps h cur"]
  by (auto simp: spreadRef_def alloc_def map_add_def split: option.splits)

text \<open>The object \<^verbatim>\<open>{xs: ["a", "b", "c", "d", "e"]}\<close> at address 1.\<close>

definition nestedHeap :: heap where
  "nestedHeap = fst (alloc fiveHeap (objCell [(KStr ''xs'', VRef 0)]))"

definition fiveArray :: node where
  "fiveArray = Arr [StrV ''a'', StrV ''b'', StrV ''c'', StrV ''d'', StrV ''e'']"

text \<open>
  C3. The claim: a patch that removes two non-adjacent elements of a 5-element array
  yields the 3 surviving elements in order. The patch is
  \<^verbatim>\<open>[REMOVE [1], REMOVE [3]]\<close> on \<^verbatim>\<open>["a", "b", "c", "d", "e"]\<close>. The function
  \<^verbatim>\<open>applyPatch\<close> marks both slots with the symbol; its first queued closure then
  calls \<^verbatim>\<open>filter\<close> on \<^verbatim>\<open>t[1]\<close>, which is the symbol, and throws. The method
  \<^verbatim>\<open>Trashly.applyPatch\<close> (through \<^verbatim>\<open>patch\<close>) removes with \<^verbatim>\<open>unset\<close>: the array
  keeps its 5 slots, two of them empty, at the root and under a key alike. With the
  array under a key \<^verbatim>\<open>xs\<close>, the function \<^verbatim>\<open>applyPatch\<close> copies it with
  \<^verbatim>\<open>Object.assign({}, ...)\<close>, so it deletes from a plain object and returns
  \<^verbatim>\<open>{xs: {0: "a", 2: "c", 4: "e"}}\<close>.
\<close>

theorem C3_array_removal:
  "applyPatchFn fiveHeap (VRef 0) [REMOVE [KIdx 1] (VStr ''b''), REMOVE [KIdx 3] (VStr ''d'')]
     = Inl TypeError
   \<and> (\<exists>h'. applyPatchFn nestedHeap (VRef 1)
              [REMOVE [KStr ''xs'', KIdx 1] (VStr ''b''), REMOVE [KStr ''xs'', KIdx 3] (VStr ''d'')]
            = Inr (h', VRef 2)
          \<and> readProp h' (VRef 2) (KStr ''xs'') = Inr (VRef 3)
          \<and> cellOf h' 3 = \<lparr>isArray = False,
                props = [(KIdx 0, VStr ''a''), (KIdx 2, VStr ''c''), (KIdx 4, VStr ''e'')],
                len = 0\<rparr>)
   \<and> current (patch [REMOVE [KIdx 1] (StrV ''b''), REMOVE [KIdx 3] (StrV ''d'')]
                (new_Trashly fiveArray))
     = Arr [StrV ''a'', Hole, StrV ''c'', Hole, StrV ''e'']
   \<and> current (patch [REMOVE [KStr ''xs'', KIdx 1] (StrV ''b''),
                      REMOVE [KStr ''xs'', KIdx 3] (StrV ''d'')]
                (new_Trashly (Obj [(KStr ''xs'', fiveArray)])))
     = Obj [(KStr ''xs'', Arr [StrV ''a'', Hole, StrV ''c'', Hole, StrV ''e''])]"
proof (intro conjI)
  show "applyPatchFn fiveHeap (VRef 0) [REMOVE [KIdx 1] (VStr ''b''), REMOVE [KIdx 3] (VStr ''d'')]
     = Inl TypeError"
    by (simp add: applyPatchFn_def fiveHeap_def emptyHeap_def alloc_def arrayOf_def sliceCell_def
      itemStep_def lastKeyOf_def propKey_def runDel_def filterCall_def setCell_def
      List.map_filter_def upt5 Let_def)
  show "\<exists>h'. applyPatchFn nestedHeap (VRef 1)
              [REMOVE [KStr ''xs'', KIdx 1] (VStr ''b''), REMOVE [KStr ''xs'', KIdx 3] (VStr ''d'')]
            = Inr (h', VRef 2)
          \<and> readProp h' (VRef 2) (KStr ''xs'') = Inr (VRef 3)
          \<and> cellOf h' 3 = \<lparr>isArray = False,
                props = [(KIdx 0, VStr ''a''), (KIdx 2, VStr ''c''), (KIdx 4, VStr ''e'')],
                len = 0\<rparr>"
    by (simp add: applyPatchFn_def nestedHeap_def fiveHeap_def emptyHeap_def alloc_def arrayOf_def
      objCell_def objectAssignEmpty_def itemStep_def lastKeyOf_def propKey_def setCell_def
      upt5 Let_def)
qed (simp_all add: fiveArray_def new_Trashly_def op_defs)

section \<open>setState\<close>

text \<open>
  C10. \<open>setState\<close> with a partial object \<open>p\<close> publishes a new top-level object:
  a key of \<open>p\<close> reads as in \<open>p\<close> (the whole value, nested objects included), every
  other key reads as in the previous state, and no other key exists. When the store is
  not paused, the history is cut after the pointer and gets one entry, the diff of the
  old and the new state. (A key of \<open>p\<close> is listed once, as in any JavaScript object.)
  On the heap: the object that \<^verbatim>\<open>{ ...this.current, ...state }\<close> builds is new, each of
  its properties holds the very value (the same reference) that the partial or else the
  previous state holds under that key, and no existing object is changed.
\<close>

theorem C10_setState:
  assumes "distinct (map fst (entries p))" and "distinct (map fst (ownProps h pr))"
  shows "(\<exists>fs. current (setState dff (Partial p) st) = Obj fs)
     \<and> (\<forall>k. getProp (current (setState dff (Partial p) st)) k
             = (if hasProp p k then getProp p k else getProp (current st) k))
     \<and> (\<forall>k. hasProp (current (setState dff (Partial p) st)) k
             = (hasProp p k \<or> hasProp (current st) k))
     \<and> (\<not> isPaused st \<longrightarrow>
          history (setState dff (Partial p) st) =
            take (nat (pointer st + 1)) (history st)
            @ [dff (current st) (current (setState dff (Partial p) st))]
          \<and> pointer (setState dff (Partial p) st) = pointer st + 1)
     \<and> snd (spreadRef h cr pr) = free h
     \<and> (\<forall>k. readProp (fst (spreadRef h cr pr)) (VRef (snd (spreadRef h cr pr))) k =
           Inr (case map_of (ownProps h pr) k of
                  Some v \<Rightarrow> v
                | None \<Rightarrow> (case map_of (ownProps h cr) k of Some v \<Rightarrow> v | None \<Rightarrow> VUndefined)))
     \<and> (\<forall>x<free h. cellOf (fst (spreadRef h cr pr)) x = cellOf h x)"
proof -
  have c: "current (setState dff (Partial p) st) = spread (current st) p"
    by (simp add: op_defs Let_def)
  have v: "(\<exists>fs. current (setState dff (Partial p) st) = Obj fs)
     \<and> (\<forall>k. getProp (current (setState dff (Partial p) st)) k
             = (if hasProp p k then getProp p k else getProp (current st) k))
     \<and> (\<forall>k. hasProp (current (setState dff (Partial p) st)) k
             = (hasProp p k \<or> hasProp (current st) k))
     \<and> (\<not> isPaused st \<longrightarrow>
          history (setState dff (Partial p) st) =
            take (nat (pointer st + 1)) (history st)
            @ [dff (current st) (current (setState dff (Partial p) st))]
          \<and> pointer (setState dff (Partial p) st) = pointer st + 1)"
    unfolding c using getProp_spread[OF assms(1)]
    by (auto simp: op_defs Let_def spread_def)
  show ?thesis
    using v spreadRef_props[OF assms(2), of cr] by simp
qed

theorem C10_setState_witness:
  "distinct (map fst (entries (Obj [(KStr ''age'', NumV 37)])))
   \<and> distinct (map fst (ownProps treeHeap (VRef 2)))
   \<and> getProp (current (setState diff (Partial (Obj [(KStr ''age'', NumV 37)]))
         (new_Trashly (Obj [(KStr ''name'', StrV ''Steve''), (KStr ''age'', NumV 36)]))))
        (KStr ''age'') = NumV 37
   \<and> getProp (current (setState diff (Partial (Obj [(KStr ''age'', NumV 37)]))
         (new_Trashly (Obj [(KStr ''name'', StrV ''Steve''), (KStr ''age'', NumV 36)]))))
        (KStr ''name'') = StrV ''Steve''
   \<and> isPaused (new_Trashly (Obj [(KStr ''name'', StrV ''Steve''), (KStr ''age'', NumV 36)]))
        = False
   \<and> history (setState diff (Partial (Obj [(KStr ''age'', NumV 37)]))
         (new_Trashly (Obj [(KStr ''name'', StrV ''Steve''), (KStr ''age'', NumV 36)])))
        = [[CHANGE [KStr ''age''] (NumV 37) (NumV 36)]]
   \<and> readProp (fst (spreadRef treeHeap (VRef 1) (VRef 2)))
        (VRef (snd (spreadRef treeHeap (VRef 1) (VRef 2)))) (KStr ''d'') = Inr (VRef 3)
   \<and> readProp (fst (spreadRef treeHeap (VRef 1) (VRef 2)))
        (VRef (snd (spreadRef treeHeap (VRef 1) (VRef 2)))) (KStr ''c'') = Inr (VNum 1)"
proof -
  let ?p = "Obj [(KStr ''age'', NumV 37)]"
  let ?N = "new_Trashly (Obj [(KStr ''name'', StrV ''Steve''), (KStr ''age'', NumV 36)])"
  have d: "distinct (map fst (entries ?p))" by simp
  have d2: "distinct (map fst (ownProps treeHeap (VRef 2)))"
    by (simp add: treeHeap_def objCell_def)
  have c: "current (setState diff (Partial ?p) ?N)
             = Obj [(KStr ''name'', StrV ''Steve''), (KStr ''age'', NumV 37)]"
    by (simp add: new_Trashly_def op_defs spread_def Let_def)
  have f: "isPaused ?N = False" "pointer ?N = -1" "history ?N = []"
    "current ?N = Obj [(KStr ''name'', StrV ''Steve''), (KStr ''age'', NumV 36)]"
    by (simp_all add: new_Trashly_def)
  have o: "ownProps treeHeap (VRef 1) = [(KStr ''b'', VRef 2), (KStr ''d'', VRef 3)]"
    "ownProps treeHeap (VRef 2) = [(KStr ''c'', VNum 1)]"
    by (simp_all add: treeHeap_def objCell_def)
  note T = C10_setState[OF d d2, of diff ?N "VRef 1"]
  have r: "readProp (fst (spreadRef treeHeap (VRef 1) (VRef 2)))
             (VRef (snd (spreadRef treeHeap (VRef 1) (VRef 2)))) k =
           Inr (case map_of (ownProps treeHeap (VRef 2)) k of
                  Some v \<Rightarrow> v
                | None \<Rightarrow> (case map_of (ownProps treeHeap (VRef 1)) k of
                             Some v \<Rightarrow> v | None \<Rightarrow> VUndefined))" for k
    using T by blast
  have hist: "history (setState diff (Partial ?p) ?N) =
            take (nat (pointer ?N + 1)) (history ?N)
            @ [diff (current ?N) (current (setState diff (Partial ?p) ?N))]"
    using T f(1) by blast
  have h: "history (setState diff (Partial ?p) ?N) = [[CHANGE [KStr ''age''] (NumV 37) (NumV 36)]]"
    using hist unfolding c f by (simp add: created_def)
  show ?thesis
    using d d2 h r[of "KStr ''d''"] r[of "KStr ''c''"] f(1)
    unfolding c o by simp
qed

end
